theory Spec2Isabelle
  imports Complex_Main "HOL-Library.FSet" "HOL-Library.List_Lexorder" "HOL-Library.Char_ord"
begin

section \<open>The ingestion, deduplication and broadcast pipeline of the CrowdWorks bot\<close>

text \<open>
  This theory embeds the in-memory pipeline of \<^verbatim>\<open>backend/bot_service.py\<close> (class
  \<^verbatim>\<open>CrowdworksBot\<close>), the job dictionary built by
  \<^verbatim>\<open>backend/real_crowdworks_scraper.py\<close> (\<^verbatim>\<open>fetch_jobs_for_url\<close>) and the
  server-sent-events fan-out of \<^verbatim>\<open>backend/main.py\<close> (\<^verbatim>\<open>broadcast_new_jobs\<close>).

  Conventions of the embedding.
  \<^item> A job is a Python dict whose keys are fixed by the dict literal of the scraper. The
    keys the pipeline reads are the fields of the record \<open>job\<close>. The key
    \<^verbatim>\<open>posted_at_timestamp\<close> is only ever read with a default
    (\<^verbatim>\<open>job.get('posted_at_timestamp', 0)\<close>), so it is an \<open>option\<close>.
  \<^item> Python sets (\<^verbatim>\<open>seen_job_ids\<close>, \<^verbatim>\<open>last_sent_job_ids\<close>) are finite sets
    (\<open>fset\<close>), \<^verbatim>\<open>len\<close> is \<open>fcard\<close>; the deque \<^verbatim>\<open>seen_job_order\<close> is a list whose
    head is the left end.
  \<^item> Strings are compared as Python compares them: lexicographically, character by
    character, a proper prefix being smaller.
  \<^item> Epoch timestamps (\<^verbatim>\<open>datetime.timestamp()\<close>) are exact reals.
  \<^item> Every block of the source that runs under \<^verbatim>\<open>state_lock\<close> is one function on the
    bot state; what the environment supplies (the scraped lists, the clock, the
    exception that a call raised) is an argument.
  \<^item> The job objects of one list are pairwise different objects (each comes from its own
    dict literal), and the only in-place update of a job is \<^verbatim>\<open>job['is_read'] = True\<close>;
    so the lists of values below evolve exactly as the lists of objects do.
\<close>

subsection \<open>Jobs\<close>

record job =
  job_id :: string
  category :: string
  posted_at :: string
  is_read :: bool
  posted_at_timestamp :: "real option"
  employer_id :: "string option"
  client_username :: string

text \<open>
  The keys of the dict literal \<^verbatim>\<open>job_data = {...}\<close> in \<^verbatim>\<open>fetch_jobs_for_url\<close>, in
  source order.
\<close>

definition job_data_keys :: "string list" where
  "job_data_keys =
     [''id'', ''title'', ''description'', ''original_description'', ''link'',
      ''posted_at'', ''posted_time_formatted'', ''posted_time_relative'', ''client'',
      ''client_username'', ''client_display_name'', ''avatar'', ''category'', ''budget'',
      ''budget_info'', ''job_price'', ''keywords'', ''is_read'', ''bid_generated'',
      ''bid_content'', ''bid_submitted'', ''auto_bid_enabled'', ''scraped_at'',
      ''evaluation_rate'', ''order_count'', ''evaluation_count'', ''contract_rate'',
      ''identity_verified'', ''identity_status'', ''employer_id'',
      ''employer_contracts_count'', ''employer_completed_count'',
      ''employer_last_activity'']"

text \<open>
  The job that \<^verbatim>\<open>fetch_jobs_for_url\<close> appends and \<^verbatim>\<open>scrape_category\<close> returns (after
  overwriting \<^verbatim>\<open>job['category']\<close>): \<^verbatim>\<open>'id': str(job_offer['id'])\<close>,
  \<^verbatim>\<open>'posted_at': posted_at_iso\<close>, \<^verbatim>\<open>'is_read': False\<close>, and no key
  \<^verbatim>\<open>posted_at_timestamp\<close>.
\<close>

definition job_data :: "string \<Rightarrow> string \<Rightarrow> string \<Rightarrow> string option \<Rightarrow> string \<Rightarrow> job" where
  "job_data offer_id scraped_category posted_at_iso details_employer_id username =
     \<lparr>job_id = offer_id, category = scraped_category, posted_at = posted_at_iso,
      is_read = False,
      posted_at_timestamp = None,
      employer_id = details_employer_id, client_username = username\<rparr>"

subsection \<open>Sorting as \<^verbatim>\<open>list.sort(key=..., reverse=True)\<close>\<close>

text \<open>
  Python's sort is stable, also with \<^verbatim>\<open>reverse=True\<close>: elements with equal keys keep
  their original order. \<open>sort_key\<close> is a stable ascending sort, so the descending stable
  sort is the reversal of the ascending sort of the reversed list.
\<close>

definition sort_desc :: "('a \<Rightarrow> 'k::linorder) \<Rightarrow> 'a list \<Rightarrow> 'a list" where
  "sort_desc k xs = rev (sort_key k (rev xs))"

subsection \<open>The bot state\<close>

record bot =
  is_running :: bool
  is_paused :: bool
  start_time :: "real option"
  jobs_found :: int
  unread_count :: int
  seen_job_ids :: "string fset"
  seen_job_order :: "string list"
  max_seen_ids :: nat
  current_jobs :: "job list"
  max_jobs :: nat
  last_sent_job_ids :: "string fset"
  job_max_age_hours :: int
  cleanup_interval :: int
  last_cleanup_time :: "real option"
  last_scrape_time :: "real option"
  error_count :: int
  last_error :: "string option"

text \<open>The state that \<^verbatim>\<open>CrowdworksBot.__init__\<close> sets up, before any stored settings are applied.\<close>

definition init_bot :: bot where
  "init_bot =
     \<lparr>is_running = False, is_paused = False, start_time = None, jobs_found = 0,
      unread_count = 0, seen_job_ids = {||}, seen_job_order = [], max_seen_ids = 5000,
      current_jobs = [], max_jobs = 50, last_sent_job_ids = {||}, job_max_age_hours = 24,
      cleanup_interval = 3600, last_cleanup_time = None, last_scrape_time = None,
      error_count = 0, last_error = None\<rparr>"

text \<open>
  Exceptions. The handlers of the source distinguish \<^verbatim>\<open>KeyboardInterrupt\<close> and
  \<^verbatim>\<open>SystemExit\<close>, which they re-raise, from every other \<^verbatim>\<open>BaseException\<close>;
  \<open>Error msg\<close> is such an exception \<open>e\<close> with \<^verbatim>\<open>str(e) = msg\<close>.
\<close>

datatype exn = KeyboardInterrupt | SystemExit | Error string

fun reraised :: "exn \<Rightarrow> bool" where
  "reraised KeyboardInterrupt = True"
| "reraised SystemExit = True"
| "reraised (Error msg) = False"

fun str :: "exn \<Rightarrow> string" where
  "str KeyboardInterrupt = ''''"
| "str SystemExit = ''''"
| "str (Error msg) = msg"

subsection \<open>Settings and lifecycle\<close>

text \<open>
  \<^verbatim>\<open>set_settings\<close>: \<^verbatim>\<open>self.max_jobs = max(10, min(200, int(max_jobs_setting)))\<close>. The
  other settings it stores are not read by the pipeline below. It does not touch
  \<^verbatim>\<open>current_jobs\<close>.
\<close>

definition set_settings :: "int \<Rightarrow> bot \<Rightarrow> bot" where
  "set_settings max_jobs_setting s = s\<lparr>max_jobs := nat (max 10 (min 200 max_jobs_setting))\<rparr>"

datatype scraper_state = Scraper_ok | Scraper_missing | Scraper_invalid

text \<open>
  \<^verbatim>\<open>start\<close>: returns at once when already running; raises \<^verbatim>\<open>RuntimeError\<close> (after
  resetting both flags) when the scraper is unavailable; otherwise resets the counters,
  clears both halves of the deduplication cache and sets the flags. The result is the
  state left behind and the exception raised, if any.
\<close>

definition start :: "scraper_state \<Rightarrow> real \<Rightarrow> bot \<Rightarrow> bot \<times> exn option" where
  "start scraper now s =
     (if is_running s then (s, None)
      else case scraper of
        Scraper_missing \<Rightarrow>
          (s\<lparr>is_running := False, is_paused := False\<rparr>, Some (Error ''Scraper not initialized''))
      | Scraper_invalid \<Rightarrow>
          (s\<lparr>is_running := False, is_paused := False\<rparr>,
           Some (Error ''Scraper validation failed: Scraper missing required attributes''))
      | Scraper_ok \<Rightarrow>
          (s\<lparr>is_running := True, is_paused := False, start_time := Some now,
             jobs_found := 0, unread_count := 0, seen_job_ids := {||},
             seen_job_order := [], error_count := 0, last_error := None\<rparr>, None))"

text \<open>
  \<^verbatim>\<open>stop\<close>: the flags, then the block commented \<^verbatim>\<open># Clear all data\<close>:
  \<^verbatim>\<open>seen_job_ids.clear()\<close>, \<^verbatim>\<open>current_jobs.clear()\<close>, the two counters and the two
  times. The block does not mention \<^verbatim>\<open>seen_job_order\<close>.
\<close>

definition stop :: "bot \<Rightarrow> bot" where
  "stop s =
     s\<lparr>is_running := False, is_paused := False, seen_job_ids := {||}, current_jobs := [],
       jobs_found := 0, unread_count := 0, start_time := None, last_scrape_time := None\<rparr>"

definition pause :: "bot \<Rightarrow> bot" where
  "pause s = (if \<not> is_running s then s else s\<lparr>is_paused := True\<rparr>)"

definition resume :: "bot \<Rightarrow> bot" where
  "resume s = (if \<not> is_running s then s else s\<lparr>is_paused := False\<rparr>)"

text \<open>
  \<^verbatim>\<open>mark_job_as_read\<close>: the first job of the snapshot with the id is marked, the unread
  counter is decremented with floor zero, and the loop breaks.
\<close>

fun mark_first :: "string \<Rightarrow> job list \<Rightarrow> job list" where
  "mark_first i [] = []"
| "mark_first i (j # js) =
     (if job_id j = i then j\<lparr>is_read := True\<rparr> # js else j # mark_first i js)"

definition mark_job_as_read :: "string \<Rightarrow> bot \<Rightarrow> bot" where
  "mark_job_as_read i s =
     (if i \<in> set (map job_id (current_jobs s))
      then s\<lparr>current_jobs := mark_first i (current_jobs s),
             unread_count := max 0 (unread_count s - 1)\<rparr>
      else s)"

text \<open>
  The handler of \<^verbatim>\<open>/api/data/clear-jobs\<close> in \<^verbatim>\<open>main.py\<close>:
  \<^verbatim>\<open>bot_instance.current_jobs = []\<close> and \<^verbatim>\<open>last_sent_job_ids.clear()\<close>.
\<close>

definition clear_jobs :: "bot \<Rightarrow> bot" where
  "clear_jobs s = s\<lparr>current_jobs := [], last_sent_job_ids := {||}\<rparr>"

subsection \<open>The deduplication cache\<close>

text \<open>
  The pruning loop of \<^verbatim>\<open>scrape_and_emit\<close>:
  \<^verbatim>\<open>while len(self.seen_job_ids) > self.max_seen_ids and self.seen_job_order:
      old_id = self.seen_job_order.popleft()
      if old_id in self.seen_job_ids: self.seen_job_ids.remove(old_id)\<close>
\<close>

fun prune_seen :: "nat \<Rightarrow> string fset \<Rightarrow> string list \<Rightarrow> string fset \<times> string list" where
  "prune_seen cap ids [] = (ids, [])"
| "prune_seen cap ids (old_id # order) =
     (if fcard ids > cap
      then prune_seen cap (if old_id |\<in>| ids then ids |-| {|old_id|} else ids) order
      else (ids, old_id # order))"

text \<open>
  One pass of the body of \<^verbatim>\<open>for job in category_jobs\<close> on the cache: the result tells
  whether the id was new (the job is then appended to \<^verbatim>\<open>batch_new_jobs\<close>).
\<close>

definition admit :: "string \<Rightarrow> bot \<Rightarrow> bool \<times> bot" where
  "admit i s =
     (if i |\<notin>| seen_job_ids s
      then (case prune_seen (max_seen_ids s) (finsert i (seen_job_ids s)) (seen_job_order s @ [i])
            of (ids, order) \<Rightarrow> (True, s\<lparr>seen_job_ids := ids, seen_job_order := order\<rparr>))
      else (False, s))"

fun determine_new_jobs :: "job list \<Rightarrow> bot \<Rightarrow> job list \<times> bot" where
  "determine_new_jobs [] s = ([], s)"
| "determine_new_jobs (job # category_jobs) s =
     (case admit (job_id job) s of (is_new, s1) \<Rightarrow>
        (case determine_new_jobs category_jobs s1 of (batch_new_jobs, s2) \<Rightarrow>
           (if is_new then job # batch_new_jobs else batch_new_jobs, s2)))"

text \<open>A run of bare ids through the cache, with the answers given (used for the scenarios).\<close>

fun admit_all :: "string list \<Rightarrow> bot \<Rightarrow> bool list \<times> bot" where
  "admit_all [] s = ([], s)"
| "admit_all (i # ids) s =
     (case admit i s of (is_new, s1) \<Rightarrow>
        (case admit_all ids s1 of (answers, s2) \<Rightarrow> (is_new # answers, s2)))"

text \<open>
  The representation invariant of the cache: the set holds exactly the ids of the deque,
  the deque has no repetition, and the cap is respected.
\<close>

definition cache_synced :: "bot \<Rightarrow> bool" where
  "cache_synced s =
     (seen_job_ids s = fset_of_list (seen_job_order s) \<and> distinct (seen_job_order s) \<and>
      fcard (seen_job_ids s) \<le> max_seen_ids s)"

subsection \<open>The merge of a batch into the snapshot\<close>

text \<open>
  \<^verbatim>\<open>existing_jobs_map = {job['id']: job for job in self.current_jobs}\<close>: a later job
  with the same id replaces an earlier one.
\<close>

definition existing_jobs_map :: "job list \<Rightarrow> (string \<rightharpoonup> job)" where
  "existing_jobs_map jobs = foldl (\<lambda>m job. m(job_id job \<mapsto> job)) Map.empty jobs"

text \<open>\<^verbatim>\<open>if id in existing_jobs_map and existing_jobs_map[id].get('is_read', False): job['is_read'] = True\<close>\<close>

definition preserve_read :: "(string \<rightharpoonup> job) \<Rightarrow> job \<Rightarrow> job" where
  "preserve_read m j =
     (case m (job_id j) of
        Some existing \<Rightarrow> if is_read existing then j\<lparr>is_read := True\<rparr> else j
      | None \<Rightarrow> j)"

text \<open>The loop \<^verbatim>\<open>for j in combined\<close> with its two accumulators \<^verbatim>\<open>seen_ids\<close> and \<^verbatim>\<open>deduped\<close>.\<close>

fun dedup_loop :: "(string \<rightharpoonup> job) \<Rightarrow> job list \<Rightarrow> string set \<Rightarrow> job list \<Rightarrow> job list" where
  "dedup_loop m [] seen_ids deduped = deduped"
| "dedup_loop m (j # combined) seen_ids deduped =
     (if job_id j \<in> seen_ids then dedup_loop m combined seen_ids deduped
      else dedup_loop m combined (insert (job_id j) seen_ids) (deduped @ [preserve_read m j]))"

definition merge_jobs :: "job list \<Rightarrow> job list \<Rightarrow> nat \<Rightarrow> job list" where
  "merge_jobs batch_new_jobs cur cap =
     (let combined = batch_new_jobs @ cur;
          deduped = dedup_loop (existing_jobs_map cur) combined {} []
      in take cap (sort_desc posted_at deduped))"

text \<open>
  The jobs of the batch as the merge leaves them. The loop over \<^verbatim>\<open>combined\<close> starts
  with the batch and sets \<^verbatim>\<open>j['is_read'] = True\<close> in place on each job it retains, so the
  list \<^verbatim>\<open>batch_new_jobs\<close> that is emitted afterwards holds the flagged jobs; a job whose id
  came earlier in the batch is skipped and stays as it is.
\<close>

fun flag_retained :: "(string \<rightharpoonup> job) \<Rightarrow> job list \<Rightarrow> string set \<Rightarrow> job list" where
  "flag_retained m [] seen_ids = []"
| "flag_retained m (j # batch) seen_ids =
     (if job_id j \<in> seen_ids then j # flag_retained m batch seen_ids
      else preserve_read m j # flag_retained m batch (insert (job_id j) seen_ids))"

text \<open>
  The block of \<^verbatim>\<open>scrape_and_emit\<close> under \<^verbatim>\<open>state_lock\<close>: the new jobs of the category
  are determined; when there are any, the batch is sorted, the counters grow and the batch
  is merged. The result is the (sorted) batch as the merge leaves it, and the state.
\<close>

definition process_batch :: "job list \<Rightarrow> bot \<Rightarrow> job list \<times> bot" where
  "process_batch category_jobs s =
     (case determine_new_jobs category_jobs s of (batch_new_jobs, s1) \<Rightarrow>
        if batch_new_jobs \<noteq> []
        then (let batch = sort_desc posted_at batch_new_jobs in
                (flag_retained (existing_jobs_map (current_jobs s1)) batch {},
                 s1\<lparr>jobs_found := jobs_found s1 + int (length batch),
                    unread_count := unread_count s1 + int (length batch),
                    current_jobs := merge_jobs batch (current_jobs s1) (max_jobs s1)\<rparr>))
        else ([], s1))"

text \<open>
  The end of \<^verbatim>\<open>_scrape_and_process_sync\<close>: when \<^verbatim>\<open>aggregated_jobs\<close> (the concatenated
  results of all categories of the cycle) is not empty, it is sorted, read flags are
  carried over from the snapshot, and its first \<^verbatim>\<open>max_jobs\<close> elements become the
  snapshot. No job is dropped for its id.
\<close>

definition rebuild_snapshot :: "job list \<Rightarrow> bot \<Rightarrow> bot" where
  "rebuild_snapshot aggregated_jobs s =
     (if aggregated_jobs \<noteq> []
      then (let sorted_jobs = sort_desc posted_at aggregated_jobs;
                m = existing_jobs_map (current_jobs s)
            in s\<lparr>current_jobs := take (max_jobs s) (map (preserve_read m) sorted_jobs)\<rparr>)
      else s)"

text \<open>
  The merge as the specification words it: concatenate the batch in front of the existing
  snapshot; de-duplicate by id keeping the first occurrence; force the read flag on a
  retained posting when an existing posting with the same id was read; sort by
  \<open>posted_at\<close> descending; truncate.
\<close>

fun keep_first :: "job list \<Rightarrow> job list" where
  "keep_first [] = []"
| "keep_first (j # js) = j # filter (\<lambda>k. job_id k \<noteq> job_id j) (keep_first js)"

definition had_read :: "job list \<Rightarrow> string \<Rightarrow> bool" where
  "had_read existing i = (\<exists>e \<in> set existing. job_id e = i \<and> is_read e)"

definition force_read :: "job list \<Rightarrow> job \<Rightarrow> job" where
  "force_read existing j = (if had_read existing (job_id j) then j\<lparr>is_read := True\<rparr> else j)"

definition spec_merge :: "job list \<Rightarrow> job list \<Rightarrow> nat \<Rightarrow> job list" where
  "spec_merge incoming_new_batch existing cap =
     take cap (sort_desc posted_at
       (map (force_read existing) (keep_first (incoming_new_batch @ existing))))"

subsection \<open>The cleanup pass\<close>

text \<open>
  \<^verbatim>\<open>_cleanup_old_jobs\<close>, with the clock reading \<open>now\<close> as an argument. The pass runs when
  there was none before or when \<^verbatim>\<open>(now - last_cleanup_time).total_seconds() >= cleanup_interval\<close>.
\<close>

definition cleanup_due :: "real \<Rightarrow> bot \<Rightarrow> bool" where
  "cleanup_due now s =
     (case last_cleanup_time s of
        None \<Rightarrow> True
      | Some t \<Rightarrow> now - t \<ge> real_of_int (cleanup_interval s))"

text \<open>\<^verbatim>\<open>cutoff_time = now.timestamp() - (self.job_max_age_hours * 3600)\<close>\<close>

definition cutoff_time :: "real \<Rightarrow> bot \<Rightarrow> real" where
  "cutoff_time now s = now - real_of_int (job_max_age_hours s * 3600)"

text \<open>\<^verbatim>\<open>job.get('posted_at_timestamp', 0)\<close>\<close>

definition normalized_timestamp :: "job \<Rightarrow> real" where
  "normalized_timestamp j = (case posted_at_timestamp j of None \<Rightarrow> 0 | Some t \<Rightarrow> t)"

definition cleanup_old_jobs :: "real \<Rightarrow> bot \<Rightarrow> bot" where
  "cleanup_old_jobs now s =
     (if cleanup_due now s
      then (let kept = filter (\<lambda>j. normalized_timestamp j > cutoff_time now s) (current_jobs s);
                current_job_ids = fset_of_list (map job_id kept)
            in s\<lparr>current_jobs := kept,
                 seen_job_ids := seen_job_ids s |\<inter>| current_job_ids,
                 seen_job_order := filter (\<lambda>i. i |\<in>| current_job_ids) (seen_job_order s),
                 last_sent_job_ids := last_sent_job_ids s |\<inter>| current_job_ids,
                 last_cleanup_time := Some now\<rparr>)
      else s)"

subsection \<open>One turn of the scraping loop\<close>

text \<open>The body of the two handlers \<^verbatim>\<open>except BaseException\<close> inside the loop.\<close>

definition record_error :: "exn \<Rightarrow> bot \<Rightarrow> bot" where
  "record_error e s = s\<lparr>error_count := error_count s + 1, last_error := Some (str e)\<rparr>"

text \<open>
  The innermost \<^verbatim>\<open>try\<close> block of \<^verbatim>\<open>_scraping_loop_sync\<close>. The scrape-and-process step
  is the argument \<open>scrape\<close>: it returns the state it leaves and the exception it raised,
  if any. After a step that returned, the scrape time is set and the cleanup runs.
\<close>

definition run_cycle :: "(bot \<Rightarrow> bot \<times> exn option) \<Rightarrow> real \<Rightarrow> real \<Rightarrow> bot \<Rightarrow> bot \<times> exn option" where
  "run_cycle scrape now1 now2 s =
     (case scrape s of
        (s1, Some e) \<Rightarrow> (s1, Some e)
      | (s1, None) \<Rightarrow> (cleanup_old_jobs now2 (s1\<lparr>last_scrape_time := Some now1\<rparr>), None))"

text \<open>
  The two nested \<^verbatim>\<open>try\<close> statements around it. Each re-raises \<^verbatim>\<open>KeyboardInterrupt\<close>
  and \<^verbatim>\<open>SystemExit\<close> and handles every other exception by counting it, recording its
  text, logging, and sleeping five seconds (the source comments: ``Don't crash - continue
  the loop''). \<open>h1\<close> and \<open>h2\<close> are the exceptions that the logging or the sleep of the
  inner and of the outer handler raised, if any. The result is the state and the exception
  that leaves the loop body, if any.
\<close>

definition guarded_cycle ::
  "(bot \<Rightarrow> bot \<times> exn option) \<Rightarrow> real \<Rightarrow> real \<Rightarrow> exn option \<Rightarrow> exn option \<Rightarrow> bot \<Rightarrow> bot \<times> exn option" where
  "guarded_cycle scrape now1 now2 h1 h2 s =
     (case run_cycle scrape now1 now2 s of
        (s1, None) \<Rightarrow> (s1, None)
      | (s1, Some e) \<Rightarrow>
          if reraised e then (s1, Some e)
          else (case h1 of
                  None \<Rightarrow> (record_error e s1, None)
                | Some e1 \<Rightarrow>
                    if reraised e1 then (record_error e s1, Some e1)
                    else (case h2 of
                            None \<Rightarrow> (record_error e1 (record_error e s1), None)
                          | Some e2 \<Rightarrow> (record_error e1 (record_error e s1), Some e2))))"

text \<open>
  The handlers that close \<^verbatim>\<open>_scraping_loop_sync\<close>, reached by an exception that left
  the \<^verbatim>\<open>while\<close> loop: \<^verbatim>\<open>KeyboardInterrupt\<close> and \<^verbatim>\<open>SystemExit\<close> are re-raised, any
  other exception is counted and recorded and both flags are reset.
\<close>

definition fatal_handler :: "exn \<Rightarrow> bot \<Rightarrow> bot \<times> exn option" where
  "fatal_handler e s =
     (if reraised e then (s, Some e)
      else ((record_error e s)\<lparr>is_running := False, is_paused := False\<rparr>, None))"

text \<open>
  One turn of \<^verbatim>\<open>while self.is_running\<close> up to the inter-cycle sleep, followed by the
  closing handlers when an exception left the loop body. \<open>Looping\<close> means that control is
  back at the loop condition.
\<close>

datatype loop_status = Looping | Exited | Raised exn

definition loop_turn ::
  "(bot \<Rightarrow> bot \<times> exn option) \<Rightarrow> real \<Rightarrow> real \<Rightarrow> exn option \<Rightarrow> exn option \<Rightarrow> bot \<Rightarrow> bot \<times> loop_status" where
  "loop_turn scrape now1 now2 h1 h2 s =
     (if \<not> is_running s then (s, Exited)
      else if is_paused s then (s, Looping)
      else (case guarded_cycle scrape now1 now2 h1 h2 s of
              (s1, None) \<Rightarrow> (s1, Looping)
            | (s1, Some e) \<Rightarrow>
                (case fatal_handler e s1 of
                   (s2, None) \<Rightarrow> (s2, Exited)
                 | (s2, Some e') \<Rightarrow> (s2, Raised e'))))"

subsection \<open>The broadcast to the stream clients\<close>

text \<open>
  A client's mailbox is a \<^verbatim>\<open>queue.Queue\<close>; the stream endpoint creates it as
  \<^verbatim>\<open>Queue(maxsize=100)\<close> and registers a weak reference to it. An event carries the
  projected jobs.
\<close>

record compressed_job =
  c_id :: string
  c_category :: string
  c_is_read :: bool
  c_employer_id :: "string option"
  c_client_username :: string

definition compress :: "job \<Rightarrow> compressed_job" where
  "compress j =
     \<lparr>c_id = job_id j, c_category = category j, c_is_read = is_read j,
      c_employer_id = employer_id j, c_client_username = client_username j\<rparr>"

datatype event = Snapshot "compressed_job list" | New_jobs "compressed_job list"

record queue =
  maxsize :: int
  items :: "event list"

definition Queue :: "int \<Rightarrow> queue" where
  "Queue n = \<lparr>maxsize = n, items = []\<rparr>"

text \<open>\<^verbatim>\<open>Queue.full\<close>: \<^verbatim>\<open>0 < self.maxsize <= self._qsize()\<close>.\<close>

definition full :: "queue \<Rightarrow> bool" where
  "full q = (0 < maxsize q \<and> maxsize q \<le> int (length (items q)))"

datatype queue_error = Full

text \<open>\<^verbatim>\<open>put_nowait\<close> never waits: it raises \<^verbatim>\<open>queue.Full\<close> on a full queue.\<close>

definition put_nowait :: "queue \<Rightarrow> event \<Rightarrow> queue_error + queue" where
  "put_nowait q ev = (if full q then Inl Full else Inr (q\<lparr>items := items q @ [ev]\<rparr>))"

text \<open>
  The registry \<^verbatim>\<open>sse_clients\<close> is a list of weak references; \<open>None\<close> is a reference
  whose queue is gone. The stream endpoint appends a reference to a fresh queue.
\<close>

type_synonym registry = "queue option list"

definition register_client :: "registry \<Rightarrow> registry" where
  "register_client sse_clients = sse_clients @ [Some (Queue 100)]"

text \<open>
  The loop \<^verbatim>\<open>for r in clients_snapshot\<close> of \<^verbatim>\<open>broadcast_new_jobs\<close>: a dead reference is
  skipped, a live one is kept in \<^verbatim>\<open>alive\<close>, and \<^verbatim>\<open>q.put_nowait(event)\<close> is tried with
  \<^verbatim>\<open>except Exception: continue\<close>. The result is the registry written back.
\<close>

fun push_event :: "event \<Rightarrow> registry \<Rightarrow> registry" where
  "push_event ev [] = []"
| "push_event ev (None # clients) = push_event ev clients"
| "push_event ev (Some q # clients) =
     (case put_nowait q ev of
        Inr q' \<Rightarrow> Some q' # push_event ev clients
      | Inl Full \<Rightarrow> Some q # push_event ev clients)"

text \<open>
  \<^verbatim>\<open>(job_employer_id and job_employer_id in blocked_employer_ids) or
  (job_username and job_username in blocked_usernames)\<close>; \<open>None\<close> and the empty string are
  falsy.
\<close>

definition is_blocked :: "string set \<Rightarrow> string set \<Rightarrow> job \<Rightarrow> bool" where
  "is_blocked blocked_employer_ids blocked_usernames j =
     ((case employer_id j of
         None \<Rightarrow> False
       | Some e \<Rightarrow> e \<noteq> [] \<and> e \<in> blocked_employer_ids) \<or>
      (client_username j \<noteq> [] \<and> client_username j \<in> blocked_usernames))"

text \<open>The event that \<^verbatim>\<open>broadcast_new_jobs\<close> builds from a batch.\<close>

definition new_jobs_event :: "string set \<Rightarrow> string set \<Rightarrow> nat \<Rightarrow> job list \<Rightarrow> event" where
  "new_jobs_event blocked_employer_ids blocked_usernames cap jobs =
     New_jobs (map compress
       (take cap (filter (\<lambda>j. \<not> is_blocked blocked_employer_ids blocked_usernames j) jobs)))"

definition broadcast_new_jobs :: "string set \<Rightarrow> string set \<Rightarrow> nat \<Rightarrow> job list \<Rightarrow> registry \<Rightarrow> registry" where
  "broadcast_new_jobs blocked_employer_ids blocked_usernames cap jobs sse_clients =
     (if jobs = [] then sse_clients
      else push_event (new_jobs_event blocked_employer_ids blocked_usernames cap jobs) sse_clients)"

text \<open>What a publish means for one mailbox, and the live mailboxes of a registry.\<close>

definition deliver :: "event \<Rightarrow> queue \<Rightarrow> queue" where
  "deliver ev q = (if full q then q else q\<lparr>items := items q @ [ev]\<rparr>)"

fun live :: "registry \<Rightarrow> queue list" where
  "live [] = []"
| "live (None # clients) = live clients"
| "live (Some q # clients) = q # live clients"

subsection \<open>Sequences of operations\<close>

text \<open>
  The operations that change the bot state: the control operations, the locked blocks of
  a cycle, the cleanup with its clock reading, and the two kinds of error handler.
  \<open>Process_batch\<close> is the locked block of one category thread, with the list the scraper
  returned for the category; \<open>Rebuild_snapshot\<close> is the rebuild that ends a cycle, with the
  aggregated list as it stands at that moment. Threads and requests interleave at this
  grain, so a run of the program is a sequence of these operations.
\<close>

datatype operation =
    Set_settings int
  | Start scraper_state real
  | Stop
  | Pause
  | Resume
  | Mark_job_as_read string
  | Clear_jobs
  | Process_batch "job list"
  | Rebuild_snapshot "job list"
  | Cleanup_old_jobs real
  | Record_error exn
  | Fatal_error exn

fun step :: "operation \<Rightarrow> bot \<Rightarrow> bot" where
  "step (Set_settings v) s = set_settings v s"
| "step (Start scraper now) s = fst (start scraper now s)"
| "step Stop s = stop s"
| "step Pause s = pause s"
| "step Resume s = resume s"
| "step (Mark_job_as_read i) s = mark_job_as_read i s"
| "step Clear_jobs s = clear_jobs s"
| "step (Process_batch category_jobs) s = snd (process_batch category_jobs s)"
| "step (Rebuild_snapshot aggregated_jobs) s = rebuild_snapshot aggregated_jobs s"
| "step (Cleanup_old_jobs now) s = cleanup_old_jobs now s"
| "step (Record_error e) s = record_error e s"
| "step (Fatal_error e) s = fst (fatal_handler e s)"

definition run :: "operation list \<Rightarrow> bot \<Rightarrow> bot" where
  "run ops s = fold step ops s"

text \<open>
  A sequence of operations in which no settings update puts the cap below the number of
  postings the snapshot holds at that moment.
\<close>

fun cap_respected :: "operation list \<Rightarrow> bot \<Rightarrow> bool" where
  "cap_respected [] s = True"
| "cap_respected (Set_settings v # ops) s =
     (length (current_jobs s) \<le> nat (max 10 (min 200 v)) \<and>
      cap_respected ops (step (Set_settings v) s))"
| "cap_respected (other # ops) s = cap_respected ops (step other s)"

text \<open>
  A job as the scraper builds it, whatever its read flag: it has no key
  \<^verbatim>\<open>posted_at_timestamp\<close> (nothing in the source writes that key). An operation of a run of
  the program works on such jobs only.
\<close>

definition scraped :: "job \<Rightarrow> bool" where
  "scraped j = (posted_at_timestamp j = None)"


subsection \<open>Concrete postings and states used in the scenarios\<close>

text \<open>One posting, id \<open>2\<close>, as the scraper returns it for a category.\<close>

definition posting2 :: "string \<Rightarrow> job" where
  "posting2 scraped_category =
     job_data ''2'' scraped_category ''2024-05-01T10:00:00+09:00'' None ''client_a''"

text \<open>
  A cycle over the categories \<open>web\<close> and \<open>app\<close> whose result pages both list posting
  \<open>2\<close>: the two locked blocks of the category threads, then the rebuild on the
  aggregated results.
\<close>

definition two_category_cycle :: "operation list" where
  "two_category_cycle =
     [Process_batch [posting2 ''web''], Process_batch [posting2 ''app''],
      Rebuild_snapshot [posting2 ''web'', posting2 ''app'']]"


text \<open>\<open>n\<close> postings with pairwise different ids (\<open>x\<close>, \<open>xx\<close>, ...) of one category.\<close>

definition postings :: "nat \<Rightarrow> job list" where
  "postings n =
     map (\<lambda>k. job_data (replicate (Suc k) CHR ''x'') ''web'' ''2024-05-01T10:00:00+09:00'' None
                ''client_a'') [0..<n]"

text \<open>A started bot, and a started bot after one category returned posting \<open>2\<close>.\<close>

definition running_bot :: bot where
  "running_bot = run [Start Scraper_ok 1700000000] init_bot"

definition busy_bot :: bot where
  "busy_bot = run [Start Scraper_ok 1700000000, Process_batch [posting2 ''web'']] init_bot"

text \<open>A scrape-and-process step that raises an ordinary exception at once.\<close>

definition failing_scrape :: "bot \<Rightarrow> bot \<times> exn option" where
  "failing_scrape s = (s, Some (Error ''boom''))"

text \<open>A cache with room for two ids.\<close>

definition small_cache :: bot where
  "small_cache = init_bot\<lparr>max_seen_ids := 2\<rparr>"

text \<open>A mailbox of the stream endpoint filled to its capacity, and an empty one.\<close>

definition saturated_queue :: queue where
  "saturated_queue = (Queue 100)\<lparr>items := replicate 100 (Snapshot [])\<rparr>"

definition idle_queue :: queue where
  "idle_queue = Queue 100"

text \<open>A cache with room for one id, after one category returned posting \<open>2\<close>.\<close>

definition tiny_cache_bot :: bot where
  "tiny_cache_bot = run [Process_batch [posting2 ''web'']] (init_bot\<lparr>max_seen_ids := 1\<rparr>)"



section \<open>Properties\<close>

subsection \<open>Sorting\<close>

text \<open>The model of the sort yields a descending list and keeps equal keys in their order.\<close>

lemma sorted_sort_desc: "sorted (rev (map k (sort_desc k xs)))"
  by (simp add: sort_desc_def rev_map)

lemma sort_desc_stable:
  "filter (\<lambda>y. k y = v) (sort_desc k xs) = filter (\<lambda>y. k y = v) xs"
  by (simp add: sort_desc_def rev_filter [symmetric] sort_key_stable)

lemma length_sort_desc: "length (sort_desc k xs) = length xs"
  by (simp add: sort_desc_def)

subsection \<open>The merge loop and the specified merge\<close>

lemma keep_first_filter_id:
  "keep_first (filter (\<lambda>k. Q (job_id k)) js) = filter (\<lambda>k. Q (job_id k)) (keep_first js)"
proof (induction js)
  case Nil
  then show ?case by simp
next
  case (Cons j js)
  show ?case
  proof (cases "Q (job_id j)")
    case True
    then show ?thesis using Cons by (simp add: conj_commute)
  next
    case False
    have "filter (\<lambda>k. Q (job_id k)) (filter (\<lambda>k. job_id k \<noteq> job_id j) (keep_first js))
          = filter (\<lambda>k. Q (job_id k)) (keep_first js)"
      using False by (auto intro: filter_cong)
    with False Cons show ?thesis by simp
  qed
qed

lemma dedup_loop_keep_first:
  "dedup_loop m xs seen_ids deduped =
     deduped @ map (preserve_read m) (keep_first (filter (\<lambda>j. job_id j \<notin> seen_ids) xs))"
proof (induction xs arbitrary: seen_ids deduped)
  case Nil
  then show ?case by simp
next
  case (Cons j xs)
  show ?case
  proof (cases "job_id j \<in> seen_ids")
    case True
    then show ?thesis using Cons by simp
  next
    case False
    have "keep_first (filter (\<lambda>k. job_id k \<notin> insert (job_id j) seen_ids) xs)
          = filter (\<lambda>k. job_id k \<noteq> job_id j) (keep_first (filter (\<lambda>k. job_id k \<notin> seen_ids) xs))"
      using keep_first_filter_id [of "\<lambda>i. i \<noteq> job_id j" "filter (\<lambda>k. job_id k \<notin> seen_ids) xs"]
      by (simp add: conj_commute)
    with False Cons show ?thesis by simp
  qed
qed

lemma foldl_upd_map_of:
  "foldl (\<lambda>m j. m(f j \<mapsto> j)) m0 xs = m0 ++ map_of (map (\<lambda>j. (f j, j)) (rev xs))"
proof (induction xs arbitrary: m0)
  case Nil
  then show ?case by simp
next
  case (Cons x xs)
  have upd: "m0(f x \<mapsto> x) ++ M = m0 ++ (map_of [(f x, x)] ++ M)" for M
    by (rule ext) (simp add: map_add_def split: option.splits)
  have "foldl (\<lambda>m j. m(f j \<mapsto> j)) m0 (x # xs) = foldl (\<lambda>m j. m(f j \<mapsto> j)) (m0(f x \<mapsto> x)) xs"
    unfolding foldl_Cons ..
  also have "\<dots> = m0(f x \<mapsto> x) ++ map_of (map (\<lambda>j. (f j, j)) (rev xs))"
    by (rule Cons.IH)
  also have "\<dots> = m0 ++ map_of (map (\<lambda>j. (f j, j)) (rev (x # xs)))"
    unfolding upd by simp
  finally show ?case .
qed

lemma existing_jobs_map_map_of:
  "existing_jobs_map xs = map_of (map (\<lambda>j. (job_id j, j)) (rev xs))"
  by (simp add: existing_jobs_map_def foldl_upd_map_of)

lemma existing_jobs_map_Some_iff:
  assumes "distinct (map job_id xs)"
  shows "existing_jobs_map xs i = Some e \<longleftrightarrow> e \<in> set xs \<and> job_id e = i"
proof -
  have "distinct (map fst (map (\<lambda>j. (job_id j, j)) (rev xs)))"
    using assms by (simp add: comp_def rev_map [symmetric])
  then show ?thesis
    unfolding existing_jobs_map_map_of by (subst map_of_eq_Some_iff) auto
qed

lemma existing_jobs_map_None_iff:
  "existing_jobs_map xs i = None \<longleftrightarrow> i \<notin> job_id ` set xs"
  unfolding existing_jobs_map_map_of by (simp add: map_of_eq_None_iff image_image)

lemma preserve_read_force_read:
  assumes "distinct (map job_id existing)"
  shows "preserve_read (existing_jobs_map existing) j = force_read existing j"
proof (cases "existing_jobs_map existing (job_id j)")
  case None
  then have "\<not> had_read existing (job_id j)"
    unfolding existing_jobs_map_None_iff had_read_def by (metis image_eqI)
  with None show ?thesis by (simp add: preserve_read_def force_read_def)
next
  case (Some e)
  note iff = existing_jobs_map_Some_iff [OF assms]
  have e_in: "e \<in> set existing" "job_id e = job_id j"
    using Some iff by auto
  have uniq: "e' = e" if "e' \<in> set existing" "job_id e' = job_id j" for e'
  proof -
    have "existing_jobs_map existing (job_id j) = Some e'"
      using that iff by simp
    with Some show ?thesis by simp
  qed
  have "had_read existing (job_id j) \<longleftrightarrow> is_read e"
    unfolding had_read_def using e_in uniq by blast
  with Some show ?thesis by (simp add: preserve_read_def force_read_def)
qed

lemma merge_jobs_eq_spec_merge:
  assumes "distinct (map job_id existing)"
  shows "merge_jobs batch existing cap = spec_merge batch existing cap"
proof -
  have "preserve_read (existing_jobs_map existing) = force_read existing"
    by (rule ext) (rule preserve_read_force_read [OF assms])
  then show ?thesis
    by (simp add: merge_jobs_def spec_merge_def dedup_loop_keep_first)
qed

lemma merge_jobs_eq_spec_merge_last_copy:
  assumes "\<And>i. had_read existing i \<Longrightarrow> \<exists>e. existing_jobs_map existing i = Some e \<and> is_read e"
  shows "merge_jobs batch existing cap = spec_merge batch existing cap"
proof -
  have "preserve_read (existing_jobs_map existing) j = force_read existing j" for j
  proof (cases "had_read existing (job_id j)")
    case True
    from assms [OF this] show ?thesis
      using True by (auto simp: preserve_read_def force_read_def)
  next
    case False
    have "\<not> is_read e" if "existing_jobs_map existing (job_id j) = Some e" for e
    proof -
      from that have "(job_id j, e) \<in> set (map (\<lambda>j. (job_id j, j)) (rev existing))"
        unfolding existing_jobs_map_map_of by (rule map_of_SomeD)
      then have "e \<in> set existing" "job_id e = job_id j" by auto
      with False show ?thesis unfolding had_read_def by blast
    qed
    with False show ?thesis
      by (auto simp: preserve_read_def force_read_def split: option.splits)
  qed
  then have "preserve_read (existing_jobs_map existing) = force_read existing"
    by (rule ext)
  then show ?thesis
    by (simp add: merge_jobs_def spec_merge_def dedup_loop_keep_first)
qed

lemma merge_truncates_newest_first:
  assumes "distinct [job_id c, job_id b, job_id a]" "posted_at a < posted_at b" "posted_at b < posted_at c"
  shows "merge_jobs [c, b, a] [] 2 = [c, b]"
proof -
  have ids: "job_id b \<noteq> job_id c" "job_id a \<noteq> job_id c" "job_id a \<noteq> job_id b"
    using assms(1) by auto
  have d: "dedup_loop (existing_jobs_map []) [c, b, a] {} [] = [c, b, a]"
    using ids by (simp add: preserve_read_def existing_jobs_map_def)
  have le: "posted_at a \<le> posted_at b" "posted_at b \<le> posted_at c"
    using assms(2,3) by simp_all
  have s: "sort_desc posted_at [c, b, a] = [c, b, a]"
    using le by (simp add: sort_desc_def)
  have "merge_jobs [c, b, a] [] 2 =
          take 2 (sort_desc posted_at (dedup_loop (existing_jobs_map []) [c, b, a] {} []))"
    by (simp only: merge_jobs_def Let_def append_Nil2)
  also have "\<dots> = take 2 [c, b, a]"
    by (simp only: d s)
  also have "\<dots> = [c, b]"
    by (simp add: numeral_2_eq_2)
  finally show ?thesis .
qed



subsection \<open>The admit step\<close>

lemma fcard_fset_of_list_distinct: "distinct xs \<Longrightarrow> fcard (fset_of_list xs) = length xs"
  by (simp add: fcard.rep_eq fset_of_list.rep_eq distinct_card)

lemma prune_seen_keeps_newest:
  assumes "distinct xs"
  shows "prune_seen cap (fset_of_list xs) xs =
           (fset_of_list (drop (length xs - cap) xs), drop (length xs - cap) xs)"
  using assms
proof (induction xs)
  case Nil
  then show ?case by simp
next
  case (Cons h t)
  have card: "fcard (fset_of_list (h # t)) = Suc (length t)"
    using Cons.prems fcard_fset_of_list_distinct [of "h # t"] by simp
  show ?case
  proof (cases "Suc (length t) > cap")
    case True
    have rm: "finsert h (fset_of_list t) |-| {|h|} = fset_of_list t"
      using Cons.prems by (auto simp: fset_of_list_elem)
    have d: "Suc (length t) - cap = Suc (length t - cap)"
      using True by simp
    have "prune_seen cap (fset_of_list (h # t)) (h # t) = prune_seen cap (fset_of_list t) t"
      using True card rm by simp
    also have "\<dots> = (fset_of_list (drop (length t - cap) t), drop (length t - cap) t)"
      using Cons by simp
    finally show ?thesis using d by simp
  next
    case False
    then show ?thesis using card by simp
  qed
qed

lemma prune_seen_drops_prefix:
  assumes "prune_seen cap ids order = (ids', order')"
  shows "\<exists>k. order' = drop k order \<and> ids' = ids |-| fset_of_list (take k order)"
  using assms
proof (induction order arbitrary: ids)
  case Nil
  then show ?case by auto
next
  case (Cons old_id order)
  show ?case
  proof (cases "fcard ids > cap")
    case True
    let ?ids1 = "if old_id |\<in>| ids then ids |-| {|old_id|} else ids"
    have "prune_seen cap ?ids1 order = (ids', order')"
      using Cons.prems True by simp
    from Cons.IH [OF this] obtain k where
      k: "order' = drop k order" "ids' = ?ids1 |-| fset_of_list (take k order)" by blast
    have "order' = drop (Suc k) (old_id # order)" using k(1) by simp
    moreover have "ids' = ids |-| fset_of_list (take (Suc k) (old_id # order))"
      using k(2) by auto
    ultimately show ?thesis by blast
  next
    case False
    then have "order' = drop 0 (old_id # order) \<and> ids' = ids |-| fset_of_list (take 0 (old_id # order))"
      using Cons.prems by auto
    then show ?thesis by blast
  qed
qed

lemma admit_synced:
  assumes "cache_synced s" "i |\<notin>| seen_job_ids s"
  shows "seen_job_order (snd (admit i s)) =
           (if length (seen_job_order s) < max_seen_ids s then seen_job_order s @ [i]
            else tl (seen_job_order s @ [i])) \<and>
         cache_synced (snd (admit i s))"
proof -
  let ?xs = "seen_job_order s @ [i]"
  let ?cap = "max_seen_ids s"
  have ids: "seen_job_ids s = fset_of_list (seen_job_order s)" and d: "distinct (seen_job_order s)"
    and le: "fcard (seen_job_ids s) \<le> ?cap"
    using assms(1) unfolding cache_synced_def by blast+
  have len: "length (seen_job_order s) \<le> ?cap"
    using le ids d by (simp add: fcard_fset_of_list_distinct)
  have dx: "distinct ?xs"
    using d assms(2) ids by (simp add: fset_of_list_elem)
  have fx: "finsert i (seen_job_ids s) = fset_of_list ?xs"
    using ids by auto
  have p: "prune_seen ?cap (finsert i (seen_job_ids s)) ?xs =
             (fset_of_list (drop (length ?xs - ?cap) ?xs), drop (length ?xs - ?cap) ?xs)"
    unfolding fx by (rule prune_seen_keeps_newest [OF dx])
  have dr: "drop (length ?xs - ?cap) ?xs =
              (if length (seen_job_order s) < ?cap then ?xs else tl ?xs)"
  proof (cases "length (seen_job_order s) < ?cap")
    case True
    then show ?thesis by simp
  next
    case False
    with len have e: "length ?xs - ?cap = 1" by simp
    have t: "drop 1 ?xs = tl ?xs" by (simp only: One_nat_def drop_Suc drop_0)
    show ?thesis unfolding e t by (simp only: False if_False)
  qed
  define ys where "ys = drop (length ?xs - ?cap) ?xs"
  have s': "snd (admit i s) = s\<lparr>seen_job_ids := fset_of_list ys, seen_job_order := ys\<rparr>"
    using assms(2) p by (simp add: admit_def ys_def)
  have dy: "distinct ys"
    unfolding ys_def using dx by (rule distinct_drop)
  have "length ys \<le> ?cap"
    unfolding ys_def by simp
  with dy have "fcard (fset_of_list ys) \<le> ?cap"
    by (simp add: fcard_fset_of_list_distinct)
  with dy have "cache_synced (snd (admit i s))"
    unfolding s' by (simp add: cache_synced_def)
  moreover have "seen_job_order (snd (admit i s)) =
           (if length (seen_job_order s) < ?cap then ?xs else tl ?xs)"
    unfolding s' using dr by (simp add: ys_def)
  ultimately show ?thesis by simp
qed

lemma admit_new_iff: "fst (admit i s) = (i |\<notin>| seen_job_ids s)"
  by (simp add: admit_def split: prod.splits)

lemma admit_known: "i |\<in>| seen_job_ids s \<Longrightarrow> snd (admit i s) = s"
  by (simp add: admit_def)

lemma cache_synced_init: "cache_synced (init_bot\<lparr>max_seen_ids := cap\<rparr>)"
  by (simp add: cache_synced_def init_bot_def fcard_fempty)

lemma admit_all_small_cache: "admit_all [''1'', ''2'', ''3''] small_cache =
   ([True, True, True], small_cache\<lparr>seen_job_ids := {|''2'', ''3''|}, seen_job_order := [''2'', ''3'']\<rparr>)"
  apply (simp add: small_cache_def init_bot_def admit_def fcard_finsert_if fcard_fempty)
  by auto

lemma readmit_small_cache: "fst (admit ''1'' (snd (admit_all [''1'', ''2'', ''3''] small_cache)))"
  unfolding admit_all_small_cache by (simp add: admit_def)

text \<open>
  Claim C2. The admit step reports an id as new exactly when the id is not in
  \<open>seen_job_ids\<close>, and leaves the cache alone otherwise. On a cache whose set and deque
  agree, a new id is appended at the tail of the deque, and when the deque already holds
  \<open>max_seen_ids\<close> ids its oldest id (the head) is evicted; set and deque agree again
  afterwards. With \<open>max_seen_ids = 2\<close>, admitting \<open>1\<close>, \<open>2\<close>, \<open>3\<close> in order reports all
  three as new and leaves \<open>2\<close>, \<open>3\<close> (id \<open>1\<close> is evicted); admitting \<open>1\<close> again reports it
  as new. In every state, the deque after the admit of a new id is the old deque with the
  id appended at the tail, less the ids popped from its head.
\<close>

theorem admit_new_iff_absent:
  "fst (admit i s) = (i |\<notin>| seen_job_ids s) \<and>
   (i |\<in>| seen_job_ids s \<longrightarrow> snd (admit i s) = s) \<and>
   (i |\<notin>| seen_job_ids s \<and> cache_synced s \<longrightarrow>
      seen_job_order (snd (admit i s)) =
        (if length (seen_job_order s) < max_seen_ids s then seen_job_order s @ [i]
         else tl (seen_job_order s @ [i])) \<and>
      seen_job_ids (snd (admit i s)) = fset_of_list (seen_job_order (snd (admit i s))) \<and>
      cache_synced (snd (admit i s))) \<and>
   cache_synced small_cache \<and>
   admit_all [''1'', ''2'', ''3''] small_cache =
     ([True, True, True],
      small_cache\<lparr>seen_job_ids := {|''2'', ''3''|}, seen_job_order := [''2'', ''3'']\<rparr>) \<and>
   fst (admit ''1'' (snd (admit_all [''1'', ''2'', ''3''] small_cache))) \<and>
   (i |\<notin>| seen_job_ids s \<longrightarrow>
      (\<exists>k. seen_job_order (snd (admit i s)) = drop k (seen_job_order s @ [i])))"
proof -
  have f7: "i |\<notin>| seen_job_ids s \<longrightarrow>
      (\<exists>k. seen_job_order (snd (admit i s)) = drop k (seen_job_order s @ [i]))"
  proof (rule impI)
    assume new: "i |\<notin>| seen_job_ids s"
    obtain ids order where p:
      "prune_seen (max_seen_ids s) (finsert i (seen_job_ids s)) (seen_job_order s @ [i])
         = (ids, order)"
      by (cases "prune_seen (max_seen_ids s) (finsert i (seen_job_ids s)) (seen_job_order s @ [i])")
    from prune_seen_drops_prefix [OF p] obtain k where
      "order = drop k (seen_job_order s @ [i])" by blast
    then have "seen_job_order (snd (admit i s)) = drop k (seen_job_order s @ [i])"
      using new p by (simp add: admit_def)
    then show "\<exists>k. seen_job_order (snd (admit i s)) = drop k (seen_job_order s @ [i])" ..
  qed
  have f1: "fst (admit i s) = (i |\<notin>| seen_job_ids s)"
    by (rule admit_new_iff)
  have f2: "i |\<in>| seen_job_ids s \<longrightarrow> snd (admit i s) = s"
    by (simp add: admit_known)
  have f4: "cache_synced small_cache"
    unfolding small_cache_def by (rule cache_synced_init)
  have f3: "i |\<notin>| seen_job_ids s \<and> cache_synced s \<longrightarrow>
      seen_job_order (snd (admit i s)) =
        (if length (seen_job_order s) < max_seen_ids s then seen_job_order s @ [i]
         else tl (seen_job_order s @ [i])) \<and>
      seen_job_ids (snd (admit i s)) = fset_of_list (seen_job_order (snd (admit i s))) \<and>
      cache_synced (snd (admit i s))"
  proof (rule impI)
    assume h: "i |\<notin>| seen_job_ids s \<and> cache_synced s"
    note A = admit_synced [OF h [THEN conjunct2] h [THEN conjunct1]]
    have B: "seen_job_ids (snd (admit i s)) = fset_of_list (seen_job_order (snd (admit i s)))"
      using A [THEN conjunct2] unfolding cache_synced_def by (rule conjunct1)
    show "seen_job_order (snd (admit i s)) =
        (if length (seen_job_order s) < max_seen_ids s then seen_job_order s @ [i]
         else tl (seen_job_order s @ [i])) \<and>
      seen_job_ids (snd (admit i s)) = fset_of_list (seen_job_order (snd (admit i s))) \<and>
      cache_synced (snd (admit i s))"
      by (rule conjI [OF A [THEN conjunct1] conjI [OF B A [THEN conjunct2]]])
  qed
  show ?thesis
    by (rule conjI [OF f1 conjI [OF f2 conjI [OF f3 conjI [OF f4
          conjI [OF admit_all_small_cache conjI [OF readmit_small_cache f7]]]]]])
qed

theorem admit_new_iff_absent_witness:
  "''3'' |\<notin>| seen_job_ids (small_cache\<lparr>seen_job_ids := {|''1'', ''2''|}, seen_job_order := [''1'', ''2'']\<rparr>) \<and>
   cache_synced (small_cache\<lparr>seen_job_ids := {|''1'', ''2''|}, seen_job_order := [''1'', ''2'']\<rparr>) \<and>
   fst (admit ''3'' (small_cache\<lparr>seen_job_ids := {|''1'', ''2''|}, seen_job_order := [''1'', ''2'']\<rparr>)) \<and>
   seen_job_order (snd (admit ''3''
      (small_cache\<lparr>seen_job_ids := {|''1'', ''2''|}, seen_job_order := [''1'', ''2'']\<rparr>))) = [''2'', ''3''] \<and>
   ''2'' |\<in>| seen_job_ids (small_cache\<lparr>seen_job_ids := {|''1'', ''2''|}, seen_job_order := [''1'', ''2'']\<rparr>) \<and>
   snd (admit ''2'' (small_cache\<lparr>seen_job_ids := {|''1'', ''2''|}, seen_job_order := [''1'', ''2'']\<rparr>)) =
     small_cache\<lparr>seen_job_ids := {|''1'', ''2''|}, seen_job_order := [''1'', ''2'']\<rparr>"
proof -
  let ?s = "small_cache\<lparr>seen_job_ids := {|''1'', ''2''|}, seen_job_order := [''1'', ''2'']\<rparr>"
  note T3 = admit_new_iff_absent [of "''3''" ?s]
  note T2 = admit_new_iff_absent [of "''2''" ?s]
  have a: "''3'' |\<notin>| seen_job_ids ?s" by simp
  have b: "cache_synced ?s"
    by (simp add: cache_synced_def small_cache_def init_bot_def fcard_finsert_if fcard_fempty)
  have c: "''2'' |\<in>| seen_job_ids ?s" by simp
  have l: "\<not> length (seen_job_order ?s) < max_seen_ids ?s"
    by (simp add: small_cache_def init_bot_def)
  have n: "fst (admit ''3'' ?s)"
    using T3 [THEN conjunct1] a by (simp only: simp_thms)
  have "seen_job_order (snd (admit ''3'' ?s)) =
          (if length (seen_job_order ?s) < max_seen_ids ?s then seen_job_order ?s @ [''3'']
           else tl (seen_job_order ?s @ [''3'']))"
    using mp [OF T3 [THEN conjunct2, THEN conjunct2, THEN conjunct1] conjI [OF a b]]
    by (rule conjunct1)
  then have o: "seen_job_order (snd (admit ''3'' ?s)) = [''2'', ''3'']"
    using l by simp
  have k: "snd (admit ''2'' ?s) = ?s"
    using mp [OF T2 [THEN conjunct2, THEN conjunct1] c] .
  show ?thesis
    using a b n o c k by - (intro conjI; assumption)
qed

subsection \<open>The cap of the deduplication cache\<close>

lemma admit_frame:
  "current_jobs (snd (admit i s)) = current_jobs s"
  "max_jobs (snd (admit i s)) = max_jobs s"
  "max_seen_ids (snd (admit i s)) = max_seen_ids s"
  by (auto simp: admit_def split: prod.splits)

lemma snd_determine_new_jobs_Cons:
  "snd (determine_new_jobs (j # js) s) = snd (determine_new_jobs js (snd (admit (job_id j) s)))"
  by (simp split: prod.splits)

lemma determine_new_jobs_frame:
  "current_jobs (snd (determine_new_jobs js s)) = current_jobs s \<and>
   max_jobs (snd (determine_new_jobs js s)) = max_jobs s \<and>
   max_seen_ids (snd (determine_new_jobs js s)) = max_seen_ids s"
proof (induction js arbitrary: s)
  case Nil
  then show ?case by simp
next
  case (Cons j js)
  show ?case
    using Cons [of "snd (admit (job_id j) s)"] admit_frame [of "job_id j" s]
    by (simp only: snd_determine_new_jobs_Cons)
qed

lemma step_max_seen_ids: "max_seen_ids (step op s) = max_seen_ids s"
proof (cases op)
  case (Process_batch js)
  then show ?thesis using determine_new_jobs_frame [of js s]
    by (auto simp: process_batch_def Let_def split: prod.splits)
next
  case (Start sc now)
  then show ?thesis by (cases sc) (auto simp: start_def)
qed (auto simp: set_settings_def stop_def pause_def resume_def cleanup_old_jobs_def
      mark_job_as_read_def clear_jobs_def rebuild_snapshot_def record_error_def fatal_handler_def Let_def)

lemma prune_seen_idle: "fcard ids \<le> cap \<Longrightarrow> prune_seen cap ids order = (ids, order)"
  by (cases order) simp_all

lemma prune_seen_within_cap:
  assumes "fcard ids \<le> Suc cap" "\<exists>x \<in> set order. x |\<in>| ids"
  shows "fcard (fst (prune_seen cap ids order)) \<le> cap"
  using assms
proof (induction order arbitrary: ids)
  case Nil
  then show ?case by simp
next
  case (Cons old_id order)
  show ?case
  proof (cases "fcard ids > cap")
    case False
    then show ?thesis by simp
  next
    case True
    show ?thesis
    proof (cases "old_id |\<in>| ids")
      case True
      have "fcard (ids |-| {|old_id|}) \<le> cap"
        using True Cons.prems(1) by (simp add: fcard_fminus1_less Suc_leI less_Suc_eq_le)
      then show ?thesis
        using True \<open>fcard ids > cap\<close> by (simp add: prune_seen_idle)
    next
      case False
      then have "\<exists>x \<in> set order. x |\<in>| ids"
        using Cons.prems(2) by auto
      from Cons.IH [OF Cons.prems(1) this] show ?thesis
        using False \<open>fcard ids > cap\<close> by simp
    qed
  qed
qed

lemma admit_within_cap:
  assumes "fcard (seen_job_ids s) \<le> max_seen_ids s"
  shows "fcard (seen_job_ids (snd (admit i s))) \<le> max_seen_ids s"
proof (cases "i |\<in>| seen_job_ids s")
  case True
  then show ?thesis using assms by (simp add: admit_def)
next
  case False
  have c: "fcard (finsert i (seen_job_ids s)) \<le> Suc (max_seen_ids s)"
    using assms False by (simp add: fcard_finsert_if)
  have e: "\<exists>x \<in> set (seen_job_order s @ [i]). x |\<in>| finsert i (seen_job_ids s)"
    by simp
  from prune_seen_within_cap [OF c e] show ?thesis
    using False by (auto simp: admit_def split: prod.splits)
qed

lemma determine_new_jobs_within_cap:
  "fcard (seen_job_ids s) \<le> max_seen_ids s \<Longrightarrow>
     fcard (seen_job_ids (snd (determine_new_jobs js s))) \<le> max_seen_ids s"
proof (induction js arbitrary: s)
  case Nil
  then show ?case by simp
next
  case (Cons j js)
  have "fcard (seen_job_ids (snd (admit (job_id j) s))) \<le> max_seen_ids (snd (admit (job_id j) s))"
    using admit_within_cap [OF Cons.prems, of "job_id j"] admit_frame(3) [of "job_id j" s] by simp
  from Cons.IH [OF this] show ?case
    using admit_frame(3) [of "job_id j" s] by (simp only: snd_determine_new_jobs_Cons)
qed

lemma step_within_cap:
  assumes "fcard (seen_job_ids s) \<le> max_seen_ids s"
  shows "fcard (seen_job_ids (step op s)) \<le> max_seen_ids (step op s)"
proof (cases op)
  case (Process_batch js)
  then show ?thesis
    using determine_new_jobs_within_cap [OF assms, of js] determine_new_jobs_frame [of js s]
    by (auto simp: process_batch_def Let_def split: prod.splits)
next
  case (Cleanup_old_jobs now)
  have "fcard (seen_job_ids s |\<inter>| X) \<le> max_seen_ids s" for X
    using assms fcard_mono [of "seen_job_ids s |\<inter>| X" "seen_job_ids s"] by simp
  with Cleanup_old_jobs assms show ?thesis
    by (simp add: cleanup_old_jobs_def Let_def)
next
  case (Start sc now)
  then show ?thesis using assms
    by (cases sc) (auto simp: start_def fcard_fempty)
qed (use assms in \<open>auto simp: fcard_fempty set_settings_def stop_def pause_def resume_def
      mark_job_as_read_def clear_jobs_def rebuild_snapshot_def record_error_def fatal_handler_def Let_def\<close>)

lemma run_within_cap:
  "fcard (seen_job_ids s) \<le> max_seen_ids s \<Longrightarrow>
     fcard (seen_job_ids (run ops s)) \<le> max_seen_ids (run ops s) \<and>
     max_seen_ids (run ops s) = max_seen_ids s"
proof (induction ops arbitrary: s)
  case Nil
  then show ?case by (simp add: run_def)
next
  case (Cons op ops)
  from Cons.IH [OF step_within_cap [OF Cons.prems, of op]]
  show ?case by (simp add: run_def step_max_seen_ids)
qed

lemmas scenario_simps = run_def start_def process_batch_def admit_def init_bot_def fcard_finsert_if fcard_fempty
      sort_desc_def merge_jobs_def existing_jobs_map_def preserve_read_def posting2_def job_data_def
      rebuild_snapshot_def mark_job_as_read_def two_category_cycle_def

lemma tiny_cache_bot_eq: "tiny_cache_bot = init_bot\<lparr>max_seen_ids := 1, seen_job_ids := {|''2''|}, seen_job_order := [''2''],
   jobs_found := 1, unread_count := 1, current_jobs := [posting2 ''web'']\<rparr>"
  by (simp add: tiny_cache_bot_def run_def process_batch_def admit_def init_bot_def fcard_finsert_if fcard_fempty
      sort_desc_def merge_jobs_def existing_jobs_map_def preserve_read_def posting2_def job_data_def)

lemma busy_bot_eq: "busy_bot = init_bot\<lparr>is_running := True, start_time := Some 1700000000, seen_job_ids := {|''2''|}, seen_job_order := [''2''],
   jobs_found := 1, unread_count := 1, current_jobs := [posting2 ''web'']\<rparr>"
  by (simp add: busy_bot_def run_def start_def process_batch_def admit_def init_bot_def fcard_finsert_if fcard_fempty
      sort_desc_def merge_jobs_def existing_jobs_map_def preserve_read_def posting2_def job_data_def)

text \<open>
  Claim C5. The initial state is within the cap, and from every state whose
  \<open>seen_job_ids\<close> holds at most \<open>max_seen_ids\<close> ids, every sequence of operations leads to
  a state \<open>s\<close> in which it still does, under the same cap. An admit in such a state ends
  within the cap again; when the id is new, it does so by popping ids from the old end
  of the deque only: the deque afterwards is the old deque with the new id appended, less
  a prefix, and the set lost exactly the ids of that prefix. The bound does not depend on
  the set and the deque agreeing.
\<close>

theorem seen_job_ids_within_cap:
  "fcard (seen_job_ids init_bot) \<le> max_seen_ids init_bot \<and>
   (fcard (seen_job_ids s0) \<le> max_seen_ids s0 \<and> s = run ops s0 \<longrightarrow>
      fcard (seen_job_ids s) \<le> max_seen_ids s \<and> max_seen_ids s = max_seen_ids s0 \<and>
      fcard (seen_job_ids (snd (admit i s))) \<le> max_seen_ids s \<and>
      (i |\<notin>| seen_job_ids s \<longrightarrow>
         (\<exists>k. seen_job_order (snd (admit i s)) = drop k (seen_job_order s @ [i]) \<and>
              seen_job_ids (snd (admit i s)) =
                finsert i (seen_job_ids s) |-| fset_of_list (take k (seen_job_order s @ [i])))))"
proof -
  have f1: "fcard (seen_job_ids init_bot) \<le> max_seen_ids init_bot"
    by (simp add: init_bot_def fcard_fempty)
  have ev: "i |\<notin>| seen_job_ids s \<longrightarrow>
         (\<exists>k. seen_job_order (snd (admit i s)) = drop k (seen_job_order s @ [i]) \<and>
              seen_job_ids (snd (admit i s)) =
                finsert i (seen_job_ids s) |-| fset_of_list (take k (seen_job_order s @ [i])))"
  proof (rule impI)
    assume new: "i |\<notin>| seen_job_ids s"
    obtain ids order where p:
      "prune_seen (max_seen_ids s) (finsert i (seen_job_ids s)) (seen_job_order s @ [i])
         = (ids, order)"
      by (cases "prune_seen (max_seen_ids s) (finsert i (seen_job_ids s)) (seen_job_order s @ [i])")
    from prune_seen_drops_prefix [OF p] obtain k where
      "order = drop k (seen_job_order s @ [i])"
      "ids = finsert i (seen_job_ids s) |-| fset_of_list (take k (seen_job_order s @ [i]))"
      by blast
    then show "\<exists>k. seen_job_order (snd (admit i s)) = drop k (seen_job_order s @ [i]) \<and>
              seen_job_ids (snd (admit i s)) =
                finsert i (seen_job_ids s) |-| fset_of_list (take k (seen_job_order s @ [i]))"
      using new p by (auto simp: admit_def)
  qed
  have f2: "fcard (seen_job_ids s0) \<le> max_seen_ids s0 \<and> s = run ops s0 \<longrightarrow>
      fcard (seen_job_ids s) \<le> max_seen_ids s \<and> max_seen_ids s = max_seen_ids s0 \<and>
      fcard (seen_job_ids (snd (admit i s))) \<le> max_seen_ids s \<and>
      (i |\<notin>| seen_job_ids s \<longrightarrow>
         (\<exists>k. seen_job_order (snd (admit i s)) = drop k (seen_job_order s @ [i]) \<and>
              seen_job_ids (snd (admit i s)) =
                finsert i (seen_job_ids s) |-| fset_of_list (take k (seen_job_order s @ [i]))))"
  proof (rule impI)
    assume h: "fcard (seen_job_ids s0) \<le> max_seen_ids s0 \<and> s = run ops s0"
    note r = run_within_cap [OF h [THEN conjunct1], of ops]
    have b: "fcard (seen_job_ids s) \<le> max_seen_ids s" and m: "max_seen_ids s = max_seen_ids s0"
      using r h by simp_all
    note a = admit_within_cap [OF b, of i]
    show "fcard (seen_job_ids s) \<le> max_seen_ids s \<and> max_seen_ids s = max_seen_ids s0 \<and>
      fcard (seen_job_ids (snd (admit i s))) \<le> max_seen_ids s \<and>
      (i |\<notin>| seen_job_ids s \<longrightarrow>
         (\<exists>k. seen_job_order (snd (admit i s)) = drop k (seen_job_order s @ [i]) \<and>
              seen_job_ids (snd (admit i s)) =
                finsert i (seen_job_ids s) |-| fset_of_list (take k (seen_job_order s @ [i]))))"
      by (rule conjI [OF b conjI [OF m conjI [OF a ev]]])
  qed
  show ?thesis
    by (rule conjI [OF f1 f2])
qed

theorem seen_job_ids_within_cap_witness:
  "fcard (seen_job_ids (init_bot\<lparr>max_seen_ids := 1\<rparr>)) \<le> max_seen_ids (init_bot\<lparr>max_seen_ids := 1\<rparr>) \<and>
   tiny_cache_bot = run [Process_batch [posting2 ''web'']] (init_bot\<lparr>max_seen_ids := 1\<rparr>) \<and>
   fcard (seen_job_ids tiny_cache_bot) \<le> max_seen_ids tiny_cache_bot \<and>
   max_seen_ids tiny_cache_bot = max_seen_ids (init_bot\<lparr>max_seen_ids := 1\<rparr>) \<and>
   ''3'' |\<notin>| seen_job_ids tiny_cache_bot \<and>
   fcard (seen_job_ids (snd (admit ''3'' tiny_cache_bot))) \<le> max_seen_ids tiny_cache_bot \<and>
   seen_job_order tiny_cache_bot = [''2''] \<and>
   seen_job_order (snd (admit ''3'' tiny_cache_bot)) = [''3''] \<and>
   seen_job_ids (snd (admit ''3'' tiny_cache_bot)) = {|''3''|}"
proof -
  have h: "fcard (seen_job_ids (init_bot\<lparr>max_seen_ids := 1\<rparr>))
             \<le> max_seen_ids (init_bot\<lparr>max_seen_ids := 1\<rparr>)"
    by (simp add: init_bot_def fcard_fempty)
  have e: "tiny_cache_bot = run [Process_batch [posting2 ''web'']] (init_bot\<lparr>max_seen_ids := 1\<rparr>)"
    by (rule tiny_cache_bot_def)
  note T = mp [OF seen_job_ids_within_cap [THEN conjunct2] conjI [OF h e], of "''3''"]
  have a: "snd (admit ''3'' tiny_cache_bot) =
     tiny_cache_bot\<lparr>seen_job_ids := {|''3''|}, seen_job_order := [''3'']\<rparr>"
    unfolding tiny_cache_bot_eq by (auto simp: admit_def init_bot_def fcard_finsert_if fcard_fempty)
  have o: "seen_job_order tiny_cache_bot = [''2'']" "''3'' |\<notin>| seen_job_ids tiny_cache_bot"
    unfolding tiny_cache_bot_eq by simp_all
  have a1: "seen_job_order (snd (admit ''3'' tiny_cache_bot)) = [''3'']"
    and a2: "seen_job_ids (snd (admit ''3'' tiny_cache_bot)) = {|''3''|}"
    unfolding a by simp_all
  show ?thesis
    by (rule conjI [OF h conjI [OF e conjI [OF T [THEN conjunct1]
          conjI [OF T [THEN conjunct2, THEN conjunct1] conjI [OF o(2)
          conjI [OF T [THEN conjunct2, THEN conjunct2, THEN conjunct1]
          conjI [OF o(1) conjI [OF a1 a2]]]]]]]])
qed

subsection \<open>The cap of the snapshot\<close>

lemma length_mark_first: "length (mark_first i js) = length js"
  by (induction js) simp_all

lemma length_merge_jobs: "length (merge_jobs batch cur cap) \<le> cap"
  by (simp add: merge_jobs_def Let_def)

lemma flag_retained_Nil_iff [simp]: "flag_retained m batch seen_ids = [] \<longleftrightarrow> batch = []"
  by (cases batch) simp_all

lemma process_batch_capped:
  assumes "length (current_jobs s) \<le> max_jobs s"
  shows "length (current_jobs (snd (process_batch js s))) \<le> max_jobs (snd (process_batch js s))"
proof -
  obtain batch s1 where d: "determine_new_jobs js s = (batch, s1)"
    by (cases "determine_new_jobs js s")
  have fr: "current_jobs s1 = current_jobs s" "max_jobs s1 = max_jobs s"
    using determine_new_jobs_frame [of js s] d by simp_all
  show ?thesis
    using assms fr d length_merge_jobs [of "sort_desc posted_at batch" "current_jobs s" "max_jobs s"]
    by (simp add: process_batch_def Let_def)
qed

lemma process_batch_new_capped:
  assumes "fst (process_batch js s) \<noteq> []"
  shows "length (current_jobs (snd (process_batch js s))) \<le> max_jobs (snd (process_batch js s))"
proof -
  obtain batch s1 where d: "determine_new_jobs js s = (batch, s1)"
    by (cases "determine_new_jobs js s")
  have ne: "batch \<noteq> []"
    using assms d by (auto simp: process_batch_def Let_def split: if_splits)
  show ?thesis
    using ne d length_merge_jobs [of "sort_desc posted_at batch" "current_jobs s1" "max_jobs s1"]
    by (simp add: process_batch_def Let_def)
qed

lemma rebuild_snapshot_capped:
  "aggregated \<noteq> [] \<Longrightarrow>
     length (current_jobs (rebuild_snapshot aggregated s)) \<le> max_jobs (rebuild_snapshot aggregated s)"
  by (simp add: rebuild_snapshot_def Let_def)

lemma step_capped:
  assumes "length (current_jobs s) \<le> max_jobs s"
    and "\<And>v. op = Set_settings v \<Longrightarrow> length (current_jobs s) \<le> nat (max 10 (min 200 v))"
  shows "length (current_jobs (step op s)) \<le> max_jobs (step op s)"
proof (cases op)
  case (Set_settings v)
  then show ?thesis using assms(2) [of v] by (simp add: set_settings_def)
next
  case (Start sc now)
  then show ?thesis using assms(1) by (cases sc) (auto simp: start_def)
next
  case (Mark_job_as_read i)
  then show ?thesis using assms(1) by (simp add: mark_job_as_read_def length_mark_first)
next
  case (Process_batch js)
  then show ?thesis using process_batch_capped [OF assms(1)] by simp
next
  case (Rebuild_snapshot agg)
  then show ?thesis using assms(1) by (simp add: rebuild_snapshot_def Let_def)
next
  case (Cleanup_old_jobs now)
  have "length (filter P (current_jobs s)) \<le> max_jobs s" for P
    using assms(1) length_filter_le [of P "current_jobs s"] by (rule order_trans [rotated])
  with Cleanup_old_jobs show ?thesis using assms(1) by (simp add: cleanup_old_jobs_def Let_def)
qed (use assms(1) in \<open>auto simp: stop_def pause_def resume_def clear_jobs_def record_error_def
      fatal_handler_def\<close>)

lemma run_Cons: "run (op # ops) s = run ops (step op s)"
  by (simp add: run_def)

lemma cap_respected_Cons:
  "cap_respected (op # ops) s =
     ((\<forall>v. op = Set_settings v \<longrightarrow> length (current_jobs s) \<le> nat (max 10 (min 200 v))) \<and>
      cap_respected ops (step op s))"
  by (cases op) simp_all

lemma run_capped:
  "length (current_jobs s) \<le> max_jobs s \<Longrightarrow> cap_respected ops s \<Longrightarrow>
     length (current_jobs (run ops s)) \<le> max_jobs (run ops s)"
proof (induction ops arbitrary: s)
  case Nil
  then show ?case by (simp add: run_def)
next
  case (Cons op ops)
  from Cons.prems(2) have g: "\<And>v. op = Set_settings v \<Longrightarrow> length (current_jobs s) \<le> nat (max 10 (min 200 v))"
    and r: "cap_respected ops (step op s)"
    unfolding cap_respected_Cons by blast+
  have "length (current_jobs (step op s)) \<le> max_jobs (step op s)"
    using Cons.prems(1) g by (rule step_capped)
  from Cons.IH [OF this r] show ?case
    by (simp only: run_Cons)
qed

text \<open>
  Claim C4, as amended. From a state whose snapshot is within \<open>max_jobs\<close>, every sequence
  of operations in which no settings update puts \<open>max_jobs\<close> below the number of postings
  the snapshot holds at that moment ends in a state whose snapshot is within the current
  \<open>max_jobs\<close>. Whatever the state before, a batch with new postings and a rebuild on a
  non-empty aggregate leave the snapshot within the current \<open>max_jobs\<close>.
\<close>

theorem snapshot_within_max_jobs:
  "(length (current_jobs s) \<le> max_jobs s \<and> cap_respected ops s \<longrightarrow>
      length (current_jobs (run ops s)) \<le> max_jobs (run ops s)) \<and>
   (fst (process_batch category_jobs s) \<noteq> [] \<longrightarrow>
      length (current_jobs (snd (process_batch category_jobs s)))
        \<le> max_jobs (snd (process_batch category_jobs s))) \<and>
   (aggregated_jobs \<noteq> [] \<longrightarrow>
      length (current_jobs (rebuild_snapshot aggregated_jobs s))
        \<le> max_jobs (rebuild_snapshot aggregated_jobs s))"
  using run_capped [of s ops] process_batch_new_capped [of category_jobs s]
    rebuild_snapshot_capped [of aggregated_jobs s]
  by blast

theorem snapshot_within_max_jobs_witness:
  "length (current_jobs init_bot) \<le> max_jobs init_bot \<and>
   cap_respected [Process_batch [posting2 ''web''], Set_settings 10] init_bot \<and>
   length (current_jobs (run [Process_batch [posting2 ''web''], Set_settings 10] init_bot))
     \<le> max_jobs (run [Process_batch [posting2 ''web''], Set_settings 10] init_bot) \<and>
   fst (process_batch [posting2 ''web''] init_bot) \<noteq> [] \<and>
   length (current_jobs (snd (process_batch [posting2 ''web''] init_bot)))
     \<le> max_jobs (snd (process_batch [posting2 ''web''] init_bot)) \<and>
   [posting2 ''web'', posting2 ''app''] \<noteq> [] \<and>
   length (current_jobs (rebuild_snapshot [posting2 ''web'', posting2 ''app''] init_bot))
     \<le> max_jobs (rebuild_snapshot [posting2 ''web'', posting2 ''app''] init_bot)"
proof -
  note T = snapshot_within_max_jobs [of init_bot "[Process_batch [posting2 ''web''], Set_settings 10]"
      "[posting2 ''web'']" "[posting2 ''web'', posting2 ''app'']"]
  have p: "process_batch [posting2 ''web''] init_bot =
     ([posting2 ''web''],
      init_bot\<lparr>seen_job_ids := {|''2''|}, seen_job_order := [''2''], jobs_found := 1,
               unread_count := 1, current_jobs := [posting2 ''web'']\<rparr>)"
    by (simp add: process_batch_def admit_def init_bot_def fcard_finsert_if fcard_fempty
        sort_desc_def merge_jobs_def existing_jobs_map_def preserve_read_def posting2_def
        job_data_def)
  have h1: "length (current_jobs init_bot) \<le> max_jobs init_bot"
    by (simp add: init_bot_def)
  have h2: "cap_respected [Process_batch [posting2 ''web''], Set_settings 10] init_bot"
    by (simp add: p)
  have h3: "fst (process_batch [posting2 ''web''] init_bot) \<noteq> []"
    by (simp add: p)
  have h4: "[posting2 ''web'', posting2 ''app''] \<noteq> []"
    by simp
  note c1 = mp [OF T [THEN conjunct1] conjI [OF h1 h2]]
  note c2 = mp [OF T [THEN conjunct2, THEN conjunct1] h3]
  note c3 = mp [OF T [THEN conjunct2, THEN conjunct2] h4]
  show ?thesis
    by (rule conjI [OF h1 conjI [OF h2 conjI [OF c1 conjI [OF h3 conjI [OF c2 conjI [OF h4 c3]]]]]])
qed

lemma lowered_cap_state:
  "run [Process_batch (postings 11), Set_settings 10] init_bot =
     init_bot\<lparr>seen_job_ids := fset_of_list (map job_id (postings 11)),
              seen_job_order := map job_id (postings 11),
              jobs_found := 11, unread_count := 11,
              current_jobs := postings 11, max_jobs := 10\<rparr>"
  apply (simp add: run_def postings_def process_batch_def admit_def init_bot_def fcard_finsert_if fcard_fempty
      sort_desc_def merge_jobs_def existing_jobs_map_def preserve_read_def job_data_def set_settings_def upt_rec)
  by auto

text \<open>
  The claim as first stated fails at a settings update: after a batch of eleven new
  postings under the initial cap of fifty, a settings update with \<open>maxJobs = 10\<close> leaves
  eleven postings in the snapshot against a cap of ten.
\<close>

theorem snapshot_within_max_jobs_counterexample:
  "length (current_jobs (run [Process_batch (postings 11), Set_settings 10] init_bot)) = 11 \<and>
   max_jobs (run [Process_batch (postings 11), Set_settings 10] init_bot) = 10 \<and>
   \<not> length (current_jobs (run [Process_batch (postings 11), Set_settings 10] init_bot))
       \<le> max_jobs (run [Process_batch (postings 11), Set_settings 10] init_bot)"
  unfolding lowered_cap_state by (simp add: postings_def)

subsection \<open>Read flags across merges and rebuilds\<close>

lemma job_id_preserve_read [simp]: "job_id (preserve_read m j) = job_id j"
  by (simp add: preserve_read_def split: option.splits)

lemma preserve_read_keeps:
  assumes "distinct (map job_id cur)" "e \<in> set cur" "is_read e" "job_id j = job_id e"
  shows "is_read (preserve_read (existing_jobs_map cur) j)"
proof -
  have "existing_jobs_map cur (job_id j) = Some e"
    using existing_jobs_map_Some_iff [OF assms(1), of "job_id j" e] assms(2,4) by simp
  then show ?thesis using assms(3) by (simp add: preserve_read_def)
qed


lemma set_sort_desc [simp]: "set (sort_desc k xs) = set xs"
  by (simp add: sort_desc_def)

lemma merge_jobs_keeps_read:
  assumes "distinct (map job_id cur)" "e \<in> set cur" "is_read e"
    "j \<in> set (merge_jobs batch cur cap)" "job_id j = job_id e"
  shows "is_read j"
proof -
  from assms(4) have "j \<in> set (map (preserve_read (existing_jobs_map cur)) (keep_first (batch @ cur)))"
    by (auto simp: merge_jobs_def Let_def dedup_loop_keep_first dest: in_set_takeD)
  then obtain j0 where j0: "j = preserve_read (existing_jobs_map cur) j0"
    by auto
  with assms(5) have "job_id j0 = job_id e" by simp
  from preserve_read_keeps [OF assms(1,2,3) this] j0 show ?thesis by simp
qed

lemma rebuild_snapshot_keeps_read:
  assumes "distinct (map job_id (current_jobs s))" "e \<in> set (current_jobs s)" "is_read e"
    "aggregated \<noteq> []" "j \<in> set (current_jobs (rebuild_snapshot aggregated s))" "job_id j = job_id e"
  shows "is_read j"
proof -
  from assms(4,5) have "j \<in> set (map (preserve_read (existing_jobs_map (current_jobs s))) (sort_desc posted_at aggregated))"
    by (auto simp: rebuild_snapshot_def Let_def dest: in_set_takeD)
  then obtain j0 where j0: "j = preserve_read (existing_jobs_map (current_jobs s)) j0"
    by auto
  with assms(6) have "job_id j0 = job_id e" by simp
  from preserve_read_keeps [OF assms(1,2,3) this] j0 show ?thesis by simp
qed








subsection \<open>The broadcast\<close>

lemma push_event_live: "push_event ev clients = map (\<lambda>q. Some (deliver ev q)) (live clients)"
proof (induction clients)
  case Nil
  then show ?case by simp
next
  case (Cons r clients)
  then show ?case by (cases r) (simp_all add: put_nowait_def deliver_def)
qed

lemma broadcast_saturated_and_idle: "broadcast_new_jobs {} {} 50 [posting2 ''web''] [Some saturated_queue, Some idle_queue] =
        [Some saturated_queue, Some (idle_queue\<lparr>items := [New_jobs [compress (posting2 ''web'')]]\<rparr>)]"
  by (simp add: broadcast_new_jobs_def new_jobs_event_def put_nowait_def full_def saturated_queue_def
      idle_queue_def Queue_def is_blocked_def posting2_def job_data_def)

lemma live_register: "live (register_client clients) = live clients @ [Queue 100]"
  unfolding register_client_def by (induction clients rule: live.induct) simp_all

text \<open>
  Claim C6. A publish of a non-empty batch returns the registry of the live mailboxes, in
  order, each after one \<^verbatim>\<open>put_nowait\<close> of the event: on a full mailbox the put raises
  \<^verbatim>\<open>Full\<close>, which is caught, and the mailbox is unchanged; on any other mailbox the event
  is appended at the end, whatever the state of the other mailboxes. No exception leaves
  the publish, and no call of it waits. A mailbox registered by the stream endpoint has
  capacity 100. With one mailbox holding 100 events and one empty mailbox, the event is
  dropped for the first and delivered to the second.
\<close>

theorem broadcast_drops_for_full_mailbox_only:
  "(jobs \<noteq> [] \<longrightarrow>
      broadcast_new_jobs blocked_employer_ids blocked_usernames cap jobs sse_clients =
        map (\<lambda>q. Some (deliver (new_jobs_event blocked_employer_ids blocked_usernames cap jobs) q))
          (live sse_clients)) \<and>
   (full q1 \<longrightarrow> put_nowait q1 ev = Inl Full \<and> deliver ev q1 = q1) \<and>
   (\<not> full q2 \<longrightarrow>
      put_nowait q2 ev = Inr (deliver ev q2) \<and> items (deliver ev q2) = items q2 @ [ev] \<and>
      maxsize (deliver ev q2) = maxsize q2) \<and>
   live (register_client sse_clients) = live sse_clients @ [Queue 100] \<and>
   maxsize saturated_queue = 100 \<and> length (items saturated_queue) = 100 \<and>
   broadcast_new_jobs {} {} 50 [posting2 ''web''] [Some saturated_queue, Some idle_queue] =
     [Some saturated_queue, Some (idle_queue\<lparr>items := [New_jobs [compress (posting2 ''web'')]]\<rparr>)]"
proof -
  have f1: "jobs \<noteq> [] \<longrightarrow>
      broadcast_new_jobs blocked_employer_ids blocked_usernames cap jobs sse_clients =
        map (\<lambda>q. Some (deliver (new_jobs_event blocked_employer_ids blocked_usernames cap jobs) q))
          (live sse_clients)"
    by (simp add: broadcast_new_jobs_def push_event_live)
  have f2: "full q1 \<longrightarrow> put_nowait q1 ev = Inl Full \<and> deliver ev q1 = q1"
    by (simp add: put_nowait_def deliver_def)
  have f3: "\<not> full q2 \<longrightarrow>
      put_nowait q2 ev = Inr (deliver ev q2) \<and> items (deliver ev q2) = items q2 @ [ev] \<and>
      maxsize (deliver ev q2) = maxsize q2"
    by (simp add: put_nowait_def deliver_def)
  have f5: "maxsize saturated_queue = 100" and f6: "length (items saturated_queue) = 100"
    by (simp_all add: saturated_queue_def Queue_def)
  show ?thesis
    by (rule conjI [OF f1 conjI [OF f2 conjI [OF f3 conjI [OF live_register
          conjI [OF f5 conjI [OF f6 broadcast_saturated_and_idle]]]]]])
qed

theorem broadcast_drops_for_full_mailbox_only_witness:
  "[posting2 ''web''] \<noteq> [] \<and>
   broadcast_new_jobs {} {} 50 [posting2 ''web''] [Some saturated_queue, None, Some idle_queue] =
     map (\<lambda>q. Some (deliver (new_jobs_event {} {} 50 [posting2 ''web'']) q))
       (live [Some saturated_queue, None, Some idle_queue]) \<and>
   full saturated_queue \<and>
   put_nowait saturated_queue (Snapshot []) = Inl Full \<and>
   deliver (Snapshot []) saturated_queue = saturated_queue \<and>
   \<not> full idle_queue \<and>
   put_nowait idle_queue (Snapshot []) = Inr (deliver (Snapshot []) idle_queue) \<and>
   items (deliver (Snapshot []) idle_queue) = items idle_queue @ [Snapshot []] \<and>
   maxsize (deliver (Snapshot []) idle_queue) = maxsize idle_queue"
proof -
  note T = broadcast_drops_for_full_mailbox_only [of "[posting2 ''web'']" "{}" "{}" 50
      "[Some saturated_queue, None, Some idle_queue]" saturated_queue "Snapshot []" idle_queue]
  have h1: "[posting2 ''web''] \<noteq> []" by simp
  have h2: "full saturated_queue"
    by (simp add: full_def saturated_queue_def Queue_def)
  have h3: "\<not> full idle_queue"
    by (simp add: full_def idle_queue_def Queue_def)
  note c1 = mp [OF T [THEN conjunct1] h1]
  note c2 = mp [OF T [THEN conjunct2, THEN conjunct1] h2]
  note c3 = mp [OF T [THEN conjunct2, THEN conjunct2, THEN conjunct1] h3]
  show ?thesis
    by (rule conjI [OF h1 conjI [OF c1 conjI [OF h2 conjI [OF c2 [THEN conjunct1]
          conjI [OF c2 [THEN conjunct2] conjI [OF h3 c3]]]]]])
qed

subsection \<open>Errors in the scraping loop\<close>

lemma loop_turn_records_error:
  assumes "scrape s = (s1, Some e)" "\<not> reraised e" "is_running s" "\<not> is_paused s"
  shows "loop_turn scrape now1 now2 None None s = (record_error e s1, Looping)"
  using assms by (simp add: loop_turn_def guarded_cycle_def run_cycle_def)

lemma loop_turn_failing_scrape: "loop_turn failing_scrape 0 0 None None running_bot =
   (running_bot\<lparr>error_count := 1, last_error := Some ''boom''\<rparr>, Looping)"
  by (simp add: loop_turn_def guarded_cycle_def run_cycle_def failing_scrape_def running_bot_def
      run_def start_def init_bot_def record_error_def)

lemma fatal_handler_stops: "\<not> reraised e \<Longrightarrow> fatal_handler e s =
   (s\<lparr>error_count := error_count s + 1, last_error := Some (str e), is_running := False, is_paused := False\<rparr>, None)"
  by (simp add: fatal_handler_def record_error_def)

text \<open>
  Claim C7, as amended. When the scrape-and-process step of a cycle raises an exception
  other than \<^verbatim>\<open>KeyboardInterrupt\<close> and \<^verbatim>\<open>SystemExit\<close> (and the handler itself raises
  nothing), the error counter is incremented and \<open>last_error\<close> records the exception, the
  running and paused flags are unchanged, and control is back at the loop condition: the
  loop continues. Only an exception that reaches the closing handler of the loop is
  counted, recorded and followed by the reset of both flags.
\<close>

theorem cycle_error_recorded_loop_continues:
  "(scrape s = (s1, Some e) \<and> \<not> reraised e \<and> is_running s \<and> \<not> is_paused s \<longrightarrow>
      loop_turn scrape now1 now2 None None s = (record_error e s1, Looping) \<and>
      error_count (record_error e s1) = error_count s1 + 1 \<and>
      last_error (record_error e s1) = Some (str e) \<and>
      is_running (record_error e s1) = is_running s1 \<and>
      is_paused (record_error e s1) = is_paused s1) \<and>
   (\<not> reraised e' \<longrightarrow>
      fatal_handler e' s' =
        (s'\<lparr>error_count := error_count s' + 1, last_error := Some (str e'),
            is_running := False, is_paused := False\<rparr>, None))"
  using loop_turn_records_error [of scrape s s1 e now1 now2] fatal_handler_stops [of e' s']
  by (simp add: record_error_def)

theorem cycle_error_recorded_loop_continues_witness:
  "failing_scrape running_bot = (running_bot, Some (Error ''boom'')) \<and>
   \<not> reraised (Error ''boom'') \<and> is_running running_bot \<and> \<not> is_paused running_bot \<and>
   loop_turn failing_scrape 0 0 None None running_bot =
     (record_error (Error ''boom'') running_bot, Looping) \<and>
   error_count (record_error (Error ''boom'') running_bot) = error_count running_bot + 1 \<and>
   last_error (record_error (Error ''boom'') running_bot) = Some (str (Error ''boom'')) \<and>
   is_running (record_error (Error ''boom'') running_bot) = is_running running_bot \<and>
   is_paused (record_error (Error ''boom'') running_bot) = is_paused running_bot \<and>
   fatal_handler (Error ''boom'') running_bot =
     (running_bot\<lparr>error_count := error_count running_bot + 1,
        last_error := Some (str (Error ''boom'')), is_running := False, is_paused := False\<rparr>, None)"
proof -
  note T = cycle_error_recorded_loop_continues [of failing_scrape running_bot running_bot
      "Error ''boom''" 0 0 "Error ''boom''" running_bot]
  have h1: "failing_scrape running_bot = (running_bot, Some (Error ''boom''))"
    by (simp add: failing_scrape_def)
  have h2: "\<not> reraised (Error ''boom'')" by simp
  have h3: "is_running running_bot" and h4: "\<not> is_paused running_bot"
    by (simp_all add: running_bot_def run_def start_def init_bot_def)
  note c1 = mp [OF T [THEN conjunct1] conjI [OF h1 conjI [OF h2 conjI [OF h3 h4]]]]
  note c2 = mp [OF T [THEN conjunct2] h2]
  show ?thesis
    by (rule conjI [OF h1 conjI [OF h2 conjI [OF h3 conjI [OF h4 conjI [OF c1 [THEN conjunct1]
          conjI [OF c1 [THEN conjunct2, THEN conjunct1]
          conjI [OF c1 [THEN conjunct2, THEN conjunct2, THEN conjunct1]
          conjI [OF c1 [THEN conjunct2, THEN conjunct2, THEN conjunct2, THEN conjunct1]
          conjI [OF c1 [THEN conjunct2, THEN conjunct2, THEN conjunct2, THEN conjunct2] c2]]]]]]]]])
qed

text \<open>
  The claim as first stated fails: after a cycle whose scrape-and-process step raised, the
  bot is still running.
\<close>

theorem cycle_error_recorded_loop_continues_counterexample:
  "is_running running_bot \<and> \<not> is_paused running_bot \<and>
   loop_turn failing_scrape 0 0 None None running_bot =
     (running_bot\<lparr>error_count := 1, last_error := Some ''boom''\<rparr>, Looping) \<and>
   is_running (fst (loop_turn failing_scrape 0 0 None None running_bot))"
  unfolding loop_turn_failing_scrape by (simp add: running_bot_def run_def start_def init_bot_def)

subsection \<open>The cleanup pass\<close>

lemma cleanup_filter:
  "cleanup_due now s \<Longrightarrow> current_jobs (cleanup_old_jobs now s) =
     filter (\<lambda>j. cutoff_time now s < normalized_timestamp j) (current_jobs s)"
  by (simp add: cleanup_old_jobs_def Let_def)


lemma cleanup_due_first: "last_cleanup_time s = None \<Longrightarrow> cleanup_due now s"
  by (simp add: cleanup_due_def)


lemma scraped_preserve_read [simp]: "scraped (preserve_read m j) = scraped j"
  by (simp add: scraped_def preserve_read_def split: option.splits)











subsection \<open>Postings without a timestamp field\<close>

lemma job_data_keys_posted_at: "''posted_at'' \<in> set job_data_keys \<and> ''posted_at_timestamp'' \<notin> set job_data_keys"
  by (simp add: job_data_keys_def)

text \<open>
  Claim C10. A cleanup pass that runs keeps exactly the postings whose
  \<open>posted_at_timestamp\<close>, read with default \<open>0\<close>, is strictly greater than the cutoff. In
  the first pass (no previous pass), for a clock that reads at least \<open>job_max_age_hours\<close>
  past the epoch (the cutoff is not negative), every posting without the field is
  removed, whatever its \<open>posted_at\<close>. A posting built by the scraper carries \<open>posted_at\<close>
  and no \<open>posted_at_timestamp\<close>, so it is removed.
\<close>

theorem cleanup_drops_postings_without_timestamp:
  "(cleanup_due now s \<longrightarrow>
      current_jobs (cleanup_old_jobs now s) =
        filter (\<lambda>j. (case posted_at_timestamp j of None \<Rightarrow> 0 | Some ts \<Rightarrow> ts) > cutoff_time now s)
          (current_jobs s)) \<and>
   (last_cleanup_time s = None \<and> 0 \<le> cutoff_time now s \<longrightarrow>
      (\<forall>j \<in> set (current_jobs s).
         posted_at_timestamp j = None \<longrightarrow> j \<notin> set (current_jobs (cleanup_old_jobs now s))) \<and>
      job_data offer_id scraped_category posted_at_iso details_employer_id username
        \<notin> set (current_jobs (cleanup_old_jobs now s))) \<and>
   posted_at (job_data offer_id scraped_category posted_at_iso details_employer_id username)
     = posted_at_iso \<and>
   posted_at_timestamp (job_data offer_id scraped_category posted_at_iso details_employer_id username)
     = None \<and>
   ''posted_at'' \<in> set job_data_keys \<and> ''posted_at_timestamp'' \<notin> set job_data_keys"
proof -
  have f1: "cleanup_due now s \<longrightarrow>
      current_jobs (cleanup_old_jobs now s) =
        filter (\<lambda>j. (case posted_at_timestamp j of None \<Rightarrow> 0 | Some ts \<Rightarrow> ts) > cutoff_time now s)
          (current_jobs s)"
    using cleanup_filter [of now s] by (simp add: normalized_timestamp_def)
  have f2: "last_cleanup_time s = None \<and> 0 \<le> cutoff_time now s \<longrightarrow>
      (\<forall>j \<in> set (current_jobs s).
         posted_at_timestamp j = None \<longrightarrow> j \<notin> set (current_jobs (cleanup_old_jobs now s))) \<and>
      job_data offer_id scraped_category posted_at_iso details_employer_id username
        \<notin> set (current_jobs (cleanup_old_jobs now s))"
  proof (rule impI)
    assume h: "last_cleanup_time s = None \<and> 0 \<le> cutoff_time now s"
    have d: "cleanup_due now s"
      using h by (simp add: cleanup_due_first)
    have gone: "j \<notin> set (current_jobs (cleanup_old_jobs now s))" if "posted_at_timestamp j = None" for j
      using that h by (simp add: cleanup_filter [OF d] normalized_timestamp_def)
    have "posted_at_timestamp (job_data offer_id scraped_category posted_at_iso details_employer_id username) = None"
      by (simp add: job_data_def)
    from gone [OF this] gone
    show "(\<forall>j \<in> set (current_jobs s).
         posted_at_timestamp j = None \<longrightarrow> j \<notin> set (current_jobs (cleanup_old_jobs now s))) \<and>
      job_data offer_id scraped_category posted_at_iso details_employer_id username
        \<notin> set (current_jobs (cleanup_old_jobs now s))"
      by blast
  qed
  have f3: "posted_at (job_data offer_id scraped_category posted_at_iso details_employer_id username)
     = posted_at_iso"
    and f4: "posted_at_timestamp (job_data offer_id scraped_category posted_at_iso details_employer_id username)
     = None"
    by (simp_all add: job_data_def)
  have f5: "''posted_at'' \<in> set job_data_keys" and f6: "''posted_at_timestamp'' \<notin> set job_data_keys"
    by (simp_all add: job_data_keys_def)
  show ?thesis
    by (rule conjI [OF f1 conjI [OF f2 conjI [OF f3 conjI [OF f4 conjI [OF f5 f6]]]]])
qed

theorem cleanup_drops_postings_without_timestamp_witness:
  "cleanup_due 1700000000 busy_bot \<and>
   current_jobs (cleanup_old_jobs 1700000000 busy_bot) =
     filter (\<lambda>j. (case posted_at_timestamp j of None \<Rightarrow> 0 | Some ts \<Rightarrow> ts) > cutoff_time 1700000000 busy_bot)
       (current_jobs busy_bot) \<and>
   last_cleanup_time busy_bot = None \<and> 0 \<le> cutoff_time 1700000000 busy_bot \<and>
   posting2 ''web'' \<in> set (current_jobs busy_bot) \<and>
   posted_at_timestamp (posting2 ''web'') = None \<and>
   posting2 ''web'' \<notin> set (current_jobs (cleanup_old_jobs 1700000000 busy_bot)) \<and>
   job_data ''2'' ''web'' ''2024-05-01T10:00:00+09:00'' None ''client_a''
     \<notin> set (current_jobs (cleanup_old_jobs 1700000000 busy_bot))"
proof -
  note T = cleanup_drops_postings_without_timestamp [of 1700000000 busy_bot "''2''" "''web''"
      "''2024-05-01T10:00:00+09:00''" None "''client_a''"]
  have h1: "last_cleanup_time busy_bot = None"
    unfolding busy_bot_eq by (simp add: init_bot_def)
  have h2: "0 \<le> cutoff_time 1700000000 busy_bot"
    unfolding busy_bot_eq by (simp add: init_bot_def cutoff_time_def)
  have d: "cleanup_due 1700000000 busy_bot"
    using h1 by (rule cleanup_due_first)
  have m: "posting2 ''web'' \<in> set (current_jobs busy_bot)"
    unfolding busy_bot_eq by simp
  have n: "posted_at_timestamp (posting2 ''web'') = None"
    by (simp add: posting2_def job_data_def)
  note c1 = mp [OF T [THEN conjunct1] d]
  note c2 = mp [OF T [THEN conjunct2, THEN conjunct1] conjI [OF h1 h2]]
  note g = mp [OF bspec [OF c2 [THEN conjunct1] m] n]
  show ?thesis
    by (rule conjI [OF d conjI [OF c1 conjI [OF h1 conjI [OF h2 conjI [OF m conjI [OF n
          conjI [OF g c2 [THEN conjunct2]]]]]]]])
qed

subsection \<open>Stopping\<close>

lemma stop_effect:
  "\<not> is_running (stop s) \<and> \<not> is_paused (stop s) \<and> current_jobs (stop s) = [] \<and>
   seen_job_ids (stop s) = {||} \<and> jobs_found (stop s) = 0 \<and> unread_count (stop s) = 0 \<and>
   seen_job_order (stop s) = seen_job_order s"
  by (simp add: stop_def)

lemma stop_busy_bot: "stop busy_bot = init_bot\<lparr>seen_job_order := [''2'']\<rparr>"
  by (simp add: scenario_simps stop_def busy_bot_def)

text \<open>
  Claim C9. \<open>stop\<close> resets the flags, the snapshot, the id set and the two counters, as
  the lemma above says for every state. It leaves the deque \<open>seen_job_order\<close> as it is,
  where \<open>start\<close> clears it: evaluated on a running bot that has seen posting \<open>2\<close>, the
  deque still holds the id after \<open>stop\<close>, and is empty only after the next \<open>start\<close>.
\<close>

theorem stop_keeps_seen_job_order:
  "is_running busy_bot \<and> seen_job_order busy_bot = [''2''] \<and>
   seen_job_order (stop busy_bot) = [''2''] \<and>
   seen_job_ids (stop busy_bot) = {||} \<and> current_jobs (stop busy_bot) = [] \<and>
   \<not> is_running (stop busy_bot) \<and> \<not> is_paused (stop busy_bot) \<and>
   jobs_found (stop busy_bot) = 0 \<and> unread_count (stop busy_bot) = 0 \<and>
   seen_job_order (fst (start Scraper_ok 1700000100 (stop busy_bot))) = []"
  unfolding busy_bot_eq by (simp add: stop_def start_def init_bot_def)

end
